theory Spec2Isabelle
  imports Complex_Main "HOL-Library.Word"
begin

section \<open>Streaming inference pipeline of native_client/deepspeech.cc\<close>

text \<open>
  The embedding follows \<^verbatim>\<open>StreamingState\<close> and \<^verbatim>\<open>ModelState\<close> of the source.
  A computation either does not return (\<open>None\<close>), stops at a failed \<^verbatim>\<open>assert\<close> or at
  undefined behaviour (\<open>Some (Inl e)\<close>), or returns a value (\<open>Some (Inr x)\<close>).
  The collaborators whose code is outside the file (float arithmetic, the MFCC extractor,
  the TensorFlow session, the CTC decoder and the alphabet) are the fields of the record
  \<open>externals\<close>; every function of the pipeline takes them as its first argument.
\<close>

subsection \<open>Constants\<close>

definition BATCH_SIZE :: nat where
  "BATCH_SIZE = 1"

text \<open>\<^verbatim>\<open>(unsigned int)(0.025f * 16000)\<close> and \<^verbatim>\<open>(unsigned int)(0.01f * 16000)\<close>: the
  single-precision products round to 400.0 and 160.0.\<close>

definition AUDIO_WIN_LEN_SAMPLES :: nat where
  "AUDIO_WIN_LEN_SAMPLES = 400"

definition AUDIO_WIN_STEP_SAMPLES :: nat where
  "AUDIO_WIN_STEP_SAMPLES = 160"

definition MFCC_FEATURES :: nat where
  "MFCC_FEATURES = 26"

subsection \<open>Results and errors\<close>

datatype error = AssertionFailed | UndefinedBehaviour | SessionError

type_synonym 'a result = "(error + 'a) option"

definition bind_r :: "'a result \<Rightarrow> ('a \<Rightarrow> 'b result) \<Rightarrow> 'b result" where
  "bind_r r f = (case r of None \<Rightarrow> None | Some (Inl e) \<Rightarrow> Some (Inl e) | Some (Inr x) \<Rightarrow> f x)"

subsection \<open>Data model\<close>

text \<open>The fields of \<^verbatim>\<open>ModelState\<close> the pipeline reads. \<open>session\<close> is the state of the
  TensorFlow session (the hidden recurrent state lives there); \<open>alphabet_size\<close> is
  \<^verbatim>\<open>alphabet->GetSize()\<close>. The \<^verbatim>\<open>unsigned int\<close> fields are 32-bit words.\<close>

record 's ModelState =
  session :: 's
  alphabet_size :: nat
  beam_width :: "32 word"
  n_steps :: "32 word"
  mfcc_feats_per_timestep :: "32 word"
  n_context :: "32 word"

record ('f, 's) StreamingState =
  accumulated_logits :: "'f list"
  audio_buffer :: "'f list"
  last_sample :: 'f
  mfcc_buffer :: "'f list"
  batch_buffer :: "'f list"
  skip_next_mfcc :: bool
  model :: "'s ModelState"

text \<open>
  The collaborators. \<open>'f\<close> is the type of \<^verbatim>\<open>float\<close> values, with the operations the
  source applies to them; \<open>f_literal r\<close> is the \<^verbatim>\<open>float\<close> that the decimal literal of the
  number \<open>r\<close> with suffix \<^verbatim>\<open>f\<close> denotes. \<open>csf_mfcc\<close> returns the frame count and the array it allocates
  (read by index). \<open>session_run\<close> is \<^verbatim>\<open>session->Run\<close> on the input tensor (flattened)
  and \<^verbatim>\<open>input_lengths\<close>: it returns the new session state and, when the status is ok,
  the flattened \<^verbatim>\<open>logits\<close> tensor. \<open>session_initialize_state\<close> is the run of the
  \<^verbatim>\<open>initialize_state\<close> target, with the status as a boolean.
  \<open>ctc_beam_search_decoder\<close> gets the per-frame inputs, the class count and the beam
  width and returns the token sequences of its output vector, best first.
\<close>

record ('f, 's) externals =
  f_zero :: 'f
  f_of_short :: "16 word \<Rightarrow> 'f"
  f_mul :: "'f \<Rightarrow> 'f \<Rightarrow> 'f"
  f_sub :: "'f \<Rightarrow> 'f \<Rightarrow> 'f"
  f_literal :: "real \<Rightarrow> 'f"
  csf_mfcc :: "'f list \<Rightarrow> int \<times> (nat \<Rightarrow> 'f)"
  session_run :: "'s \<Rightarrow> 'f list \<Rightarrow> 32 word \<Rightarrow> 's \<times> (nat \<Rightarrow> 'f) option"
  session_initialize_state :: "'s \<Rightarrow> 's \<times> bool"
  ctc_beam_search_decoder :: "'f list list \<Rightarrow> nat \<Rightarrow> 32 word \<Rightarrow> nat list list"
  LabelsToString :: "nat list \<Rightarrow> string"

text \<open>\<^verbatim>\<open>const float PREEMPHASIS_COEFF = 0.97f;\<close>\<close>

definition PREEMPHASIS_COEFF :: "('f, 's) externals \<Rightarrow> 'f" where
  "PREEMPHASIS_COEFF ext = f_literal ext (97 / 100)"

text \<open>\<^verbatim>\<open>std::rotate(v.begin(), v.begin() + n, v.end())\<close> for \<open>n \<le> length v\<close>.\<close>

definition std_rotate :: "nat \<Rightarrow> 'a list \<Rightarrow> 'a list" where
  "std_rotate n v = drop n v @ take n v"

subsection \<open>ModelState::infer and ModelState::decode\<close>

text \<open>
  \<open>infer\<close> fills the input tensor of shape \<^verbatim>\<open>{BATCH_SIZE, n_steps, 2*n_context+1, MFCC_FEATURES}\<close>
  with \<open>n_frames * mfcc_feats_per_timestep\<close> values of \<open>aMfcc\<close> and zeros up to
  \<open>n_steps * mfcc_feats_per_timestep\<close> (both products in \<^verbatim>\<open>unsigned int\<close>), runs the
  session, and on an ok status appends \<open>n_frames * BATCH_SIZE * num_classes\<close> logits.
  On a failed status it only logs and returns. Reading \<open>aMfcc\<close> or writing the tensor
  out of bounds is undefined behaviour. The counters \<^verbatim>\<open>i\<close> and \<^verbatim>\<open>t\<close> of the three loops
  are \<^verbatim>\<open>int\<close>, compared with an unsigned bound: a loop whose bound is \<open>2 ^ 31\<close> or more
  increments its counter past \<^verbatim>\<open>INT_MAX\<close>, which is undefined behaviour as well. The
  bound of the third loop is a product in \<^verbatim>\<open>size_t\<close>.
\<close>

definition infer ::
  "('f, 's) externals \<Rightarrow> 's ModelState \<Rightarrow> 'f list \<Rightarrow> 32 word \<Rightarrow> 'f list
     \<Rightarrow> error + ('s ModelState \<times> 'f list)" where
  "infer ext m aMfcc n_frames logits_output =
     (let num_classes = alphabet_size m + 1;
          n_in = unat (n_frames * mfcc_feats_per_timestep m);
          n_tot = unat (n_steps m * mfcc_feats_per_timestep m);
          tensor_size = BATCH_SIZE * unat (n_steps m) * unat (2 * n_context m + 1) * MFCC_FEATURES
      in if length aMfcc < n_in \<or> tensor_size < max n_in n_tot \<or> 2 ^ 31 \<le> max n_in n_tot
         then Inl UndefinedBehaviour
         else
           (let input = take n_in aMfcc @ replicate (n_tot - n_in) (f_zero ext)
            in case session_run ext (session m) input n_frames of
                 (s', None) \<Rightarrow> Inr (m\<lparr>session := s'\<rparr>, logits_output)
               | (s', Some logits_mapped) \<Rightarrow>
                   if 2 ^ 31 \<le> unat n_frames * BATCH_SIZE * num_classes then Inl UndefinedBehaviour
                   else Inr (m\<lparr>session := s'\<rparr>,
                             logits_output @
                             map logits_mapped [0..<unat n_frames * BATCH_SIZE * num_classes])))"

text \<open>\<open>decode\<close> reshapes the logits into \<open>n_frames\<close> rows of \<open>num_classes\<close> values, calls
  the decoder and returns the string of the tokens of \<^verbatim>\<open>out[0]\<close>; \<^verbatim>\<open>out[0]\<close> of an
  empty vector is undefined behaviour. \<^verbatim>\<open>n_frames\<close> is an \<^verbatim>\<open>int\<close>: a quotient of \<open>2 ^ 31\<close> or
  more does not fit it (the conversion is implementation-defined), and the model stops
  there as it does for undefined behaviour. The counter \<^verbatim>\<open>i\<close> of the inner loop is an
  \<^verbatim>\<open>int\<close> compared with \<open>num_classes\<close>: it overflows when there is a frame and \<open>2 ^ 31\<close>
  classes or more.\<close>

definition decode :: "('f, 's) externals \<Rightarrow> 's ModelState \<Rightarrow> 'f list \<Rightarrow> error + string" where
  "decode ext m logits =
     (let num_classes = alphabet_size m + 1;
          n_frames = length logits div (BATCH_SIZE * num_classes);
          inputs = map (\<lambda>t. map (\<lambda>i. logits ! (t * num_classes + i)) [0..<num_classes]) [0..<n_frames]
      in if 2 ^ 31 \<le> n_frames \<or> 0 < n_frames \<and> 2 ^ 31 \<le> num_classes then Inl UndefinedBehaviour
         else
           (case ctc_beam_search_decoder ext inputs num_classes (beam_width m) of
              [] \<Rightarrow> Inl UndefinedBehaviour
            | tokens # _ \<Rightarrow> Inr (LabelsToString ext tokens)))"

subsection \<open>StreamingState\<close>

definition processBatch ::
  "('f, 's) externals \<Rightarrow> ('f, 's) StreamingState \<Rightarrow> 'f list \<Rightarrow> 32 word
     \<Rightarrow> error + ('f, 's) StreamingState" where
  "processBatch ext st buf n =
     (case infer ext (model st) buf n (accumulated_logits st) of
        Inl e \<Rightarrow> Inl e
      | Inr (m', logits') \<Rightarrow> Inr (st\<lparr>accumulated_logits := logits', model := m'\<rparr>))"

text \<open>The loop of \<open>processMfccWindow\<close>; \<open>rest\<close> is the range from \<^verbatim>\<open>start\<close> to \<^verbatim>\<open>end\<close>.
  \<^verbatim>\<open>std::min<unsigned int>\<close> converts both arguments to \<^verbatim>\<open>unsigned int\<close>.\<close>

partial_function (option) processMfccWindow ::
  "('f, 's) externals \<Rightarrow> ('f, 's) StreamingState \<Rightarrow> 'f list \<Rightarrow> ('f, 's) StreamingState result" where
  "processMfccWindow ext st rest =
     (if rest = [] then Some (Inr st)
      else
        (let cap = n_steps (model st) * mfcc_feats_per_timestep (model st);
             next_copy_amount =
               unat (min (word_of_nat (length rest) :: 32 word)
                         (cap - word_of_nat (length (batch_buffer st))));
             st1 = st\<lparr>batch_buffer := batch_buffer st @ take next_copy_amount rest\<rparr>;
             rest1 = drop next_copy_amount rest
         in if \<not> length (batch_buffer st1) \<le> unat cap then Some (Inl AssertionFailed)
            else if length (batch_buffer st1) = unat cap then
              (case processBatch ext st1 (batch_buffer st1) (n_steps (model st1)) of
                 Inl e \<Rightarrow> Some (Inl e)
               | Inr st2 \<Rightarrow> processMfccWindow ext (st2\<lparr>batch_buffer := []\<rparr>) rest1)
            else processMfccWindow ext st1 rest1))"

text \<open>The loop of \<open>pushMfccBuffer\<close>; the list \<open>buf\<close> is the array of \<^verbatim>\<open>len\<close> floats.
  The rotation by \<open>MFCC_FEATURES\<close> needs that many elements.\<close>

partial_function (option) pushMfccBuffer ::
  "('f, 's) externals \<Rightarrow> ('f, 's) StreamingState \<Rightarrow> 'f list \<Rightarrow> ('f, 's) StreamingState result" where
  "pushMfccBuffer ext st buf =
     (if buf = [] then Some (Inr st)
      else
        (let feats = mfcc_feats_per_timestep (model st);
             next_copy_amount =
               min (length buf) (unat (feats - word_of_nat (length (mfcc_buffer st))));
             st1 = st\<lparr>mfcc_buffer := mfcc_buffer st @ take next_copy_amount buf\<rparr>;
             buf1 = drop next_copy_amount buf
         in if \<not> length (mfcc_buffer st1) \<le> unat feats then Some (Inl AssertionFailed)
            else if length (mfcc_buffer st1) = unat feats then
              (case processMfccWindow ext st1 (mfcc_buffer st1) of
                 None \<Rightarrow> None
               | Some (Inl e) \<Rightarrow> Some (Inl e)
               | Some (Inr st2) \<Rightarrow>
                   if length (mfcc_buffer st2) < MFCC_FEATURES then Some (Inl UndefinedBehaviour)
                   else pushMfccBuffer ext
                          (st2\<lparr>mfcc_buffer :=
                                 take (length (mfcc_buffer st2) - MFCC_FEATURES)
                                      (std_rotate MFCC_FEATURES (mfcc_buffer st2))\<rparr>)
                          buf1)
            else pushMfccBuffer ext st1 buf1))"

definition addZeroMfccWindow ::
  "('f, 's) externals \<Rightarrow> ('f, 's) StreamingState \<Rightarrow> ('f, 's) StreamingState result" where
  "addZeroMfccWindow ext st = pushMfccBuffer ext st (replicate MFCC_FEATURES (f_zero ext))"

text \<open>\<open>processAudioWindow\<close>: the toggle is negated first and tested after; the frame count
  of the extractor is asserted to be 1 and \<open>n_frames * MFCC_FEATURES\<close> floats are pushed.\<close>

definition processAudioWindow ::
  "('f, 's) externals \<Rightarrow> ('f, 's) StreamingState \<Rightarrow> 'f list \<Rightarrow> ('f, 's) StreamingState result" where
  "processAudioWindow ext st buf =
     (let st1 = st\<lparr>skip_next_mfcc := \<not> skip_next_mfcc st\<rparr>
      in if \<not> skip_next_mfcc st1 then Some (Inr st1)
         else
           (case csf_mfcc ext buf of
              (n_frames, mfcc) \<Rightarrow>
                if n_frames \<noteq> 1 then Some (Inl AssertionFailed)
                else pushMfccBuffer ext st1
                       (map mfcc [0..<unat (word_of_int n_frames * word_of_nat MFCC_FEATURES :: 32 word)])))"

text \<open>The inner loop of \<open>feedAudioContent\<close>: pre-emphasis and buffering while there is
  input and the window is not full. It returns the state and the input left.\<close>

fun feed_inner ::
  "('f, 's) externals \<Rightarrow> ('f, 's) StreamingState \<Rightarrow> 16 word list
     \<Rightarrow> ('f, 's) StreamingState \<times> 16 word list" where
  "feed_inner ext st [] = (st, [])"
| "feed_inner ext st (x # xs) =
     (if length (audio_buffer st) < AUDIO_WIN_LEN_SAMPLES then
        (let sample = f_sub ext (f_of_short ext x) (f_mul ext (PREEMPHASIS_COEFF ext) (last_sample st))
         in feed_inner ext
              (st\<lparr>audio_buffer := audio_buffer st @ [sample], last_sample := f_of_short ext x\<rparr>) xs)
      else (st, x # xs))"

partial_function (option) feedAudioContent ::
  "('f, 's) externals \<Rightarrow> ('f, 's) StreamingState \<Rightarrow> 16 word list \<Rightarrow> ('f, 's) StreamingState result" where
  "feedAudioContent ext st buffer =
     (if buffer = [] then Some (Inr st)
      else
        (case feed_inner ext st buffer of
           (st1, buffer1) \<Rightarrow>
             if length (audio_buffer st1) = AUDIO_WIN_LEN_SAMPLES then
               (case processAudioWindow ext st1 (audio_buffer st1) of
                  None \<Rightarrow> None
                | Some (Inl e) \<Rightarrow> Some (Inl e)
                | Some (Inr st2) \<Rightarrow>
                    feedAudioContent ext
                      (st2\<lparr>audio_buffer :=
                             take (length (audio_buffer st2) - AUDIO_WIN_STEP_SAMPLES)
                                  (std_rotate AUDIO_WIN_STEP_SAMPLES (audio_buffer st2))\<rparr>)
                      buffer1)
             else feedAudioContent ext st1 buffer1))"

definition intermediateDecode ::
  "('f, 's) externals \<Rightarrow> ('f, 's) StreamingState \<Rightarrow> error + string" where
  "intermediateDecode ext st = decode ext (model st) (accumulated_logits st)"

text \<open>The loop \<^verbatim>\<open>for (int i = 0; i < model->n_context; ++i) addZeroMfccWindow();\<close> with the
  number of iterations left as its argument.\<close>

primrec addZeroMfccWindows ::
  "('f, 's) externals \<Rightarrow> nat \<Rightarrow> ('f, 's) StreamingState \<Rightarrow> ('f, 's) StreamingState result" where
  "addZeroMfccWindows ext 0 st = Some (Inr st)"
| "addZeroMfccWindows ext (Suc k) st = bind_r (addZeroMfccWindow ext st) (addZeroMfccWindows ext k)"

text \<open>\<open>finishStream\<close> returns the final state with the transcript (the caller deletes the
  state). The counter of the padding loop is a signed \<^verbatim>\<open>int\<close> compared as unsigned: it
  overflows when \<open>n_context\<close> exceeds \<^verbatim>\<open>INT_MAX\<close>. The frame count of the final batch is
  the size divided by \<open>mfcc_feats_per_timestep\<close>, passed as \<^verbatim>\<open>unsigned int\<close>.\<close>

definition finishStream ::
  "('f, 's) externals \<Rightarrow> ('f, 's) StreamingState \<Rightarrow> (('f, 's) StreamingState \<times> string) result" where
  "finishStream ext st =
     bind_r (processAudioWindow ext st (audio_buffer st)) (\<lambda>st1.
     bind_r (if 2 ^ 31 \<le> unat (n_context (model st1)) then Some (Inl UndefinedBehaviour)
             else addZeroMfccWindows ext (unat (n_context (model st1))) st1) (\<lambda>st2.
     bind_r (if length (batch_buffer st2) > 0 then
               (if mfcc_feats_per_timestep (model st2) = 0 then Some (Inl UndefinedBehaviour)
                else Some (processBatch ext st2 (batch_buffer st2)
                             (word_of_nat (length (batch_buffer st2)
                                           div unat (mfcc_feats_per_timestep (model st2))))))
             else Some (Inr st2)) (\<lambda>st3.
     (case decode ext (model st3) (accumulated_logits st3) of
        Inl e \<Rightarrow> Some (Inl e)
      | Inr str \<Rightarrow> Some (Inr (st3, str))))))"

subsection \<open>The C API\<close>

definition DS_SetupStream ::
  "('f, 's) externals \<Rightarrow> 's ModelState \<Rightarrow> error + ('f, 's) StreamingState" where
  "DS_SetupStream ext aCtx =
     (case session_initialize_state ext (session aCtx) of
        (s', ok) \<Rightarrow>
          if \<not> ok then Inl SessionError
          else Inr \<lparr>accumulated_logits = [],
                    audio_buffer = [],
                    last_sample = f_zero ext,
                    mfcc_buffer = replicate (unat (word_of_nat MFCC_FEATURES * n_context aCtx)) (f_zero ext),
                    batch_buffer = [],
                    skip_next_mfcc = False,
                    model = aCtx\<lparr>session := s'\<rparr>\<rparr>)"

definition DS_FeedAudioContent ::
  "('f, 's) externals \<Rightarrow> ('f, 's) StreamingState \<Rightarrow> 16 word list \<Rightarrow> ('f, 's) StreamingState result" where
  "DS_FeedAudioContent ext aSctx aBuffer = feedAudioContent ext aSctx aBuffer"

definition DS_FinishStream ::
  "('f, 's) externals \<Rightarrow> ('f, 's) StreamingState \<Rightarrow> string result" where
  "DS_FinishStream ext aSctx = bind_r (finishStream ext aSctx) (\<lambda>(st, str). Some (Inr str))"

subsection \<open>Auxiliary notions for the proofs\<close>

text \<open>The configuration of a model: every field but the session.\<close>

definition config :: "'s ModelState \<Rightarrow> nat \<times> 32 word \<times> 32 word \<times> 32 word \<times> 32 word" where
  "config m = (alphabet_size m, beam_width m, n_steps m, mfcc_feats_per_timestep m, n_context m)"

text \<open>What the batch accumulator leaves alone.\<close>

definition frame_upto_batch :: "('f, 's) StreamingState \<Rightarrow> ('f, 's) StreamingState \<Rightarrow> bool" where
  "frame_upto_batch st st' \<longleftrightarrow>
     audio_buffer st' = audio_buffer st \<and> last_sample st' = last_sample st \<and>
     mfcc_buffer st' = mfcc_buffer st \<and>
     skip_next_mfcc st' = skip_next_mfcc st \<and> config (model st') = config (model st)"

definition frame_upto_mfcc :: "('f, 's) StreamingState \<Rightarrow> ('f, 's) StreamingState \<Rightarrow> bool" where
  "frame_upto_mfcc st st' \<longleftrightarrow>
     audio_buffer st' = audio_buffer st \<and> last_sample st' = last_sample st \<and>
     skip_next_mfcc st' = skip_next_mfcc st \<and> config (model st') = config (model st)"

text \<open>One sample through the pre-emphasis filter, and the block run on a full window.\<close>

definition push_sample :: "('f, 's) externals \<Rightarrow> 16 word \<Rightarrow> ('f, 's) StreamingState \<Rightarrow> ('f, 's) StreamingState" where
  "push_sample ext x st =
     st\<lparr>audio_buffer := audio_buffer st @
            [f_sub ext (f_of_short ext x) (f_mul ext (PREEMPHASIS_COEFF ext) (last_sample st))],
        last_sample := f_of_short ext x\<rparr>"

definition window_step :: "('f, 's) externals \<Rightarrow> ('f, 's) StreamingState \<Rightarrow> ('f, 's) StreamingState result" where
  "window_step ext st =
     bind_r (processAudioWindow ext st (audio_buffer st)) (\<lambda>st2.
       Some (Inr (st2\<lparr>audio_buffer := drop AUDIO_WIN_STEP_SAMPLES (audio_buffer st2)\<rparr>)))"

text \<open>A stream fed chunk by chunk through the API.\<close>

fun feed_chunks ::
  "('f, 's) externals \<Rightarrow> ('f, 's) StreamingState \<Rightarrow> 16 word list list \<Rightarrow> ('f, 's) StreamingState result" where
  "feed_chunks ext st [] = Some (Inr st)"
| "feed_chunks ext st (c # cs) = bind_r (DS_FeedAudioContent ext st c) (\<lambda>s. feed_chunks ext s cs)"

text \<open>Stand-ins for the collaborators, used to instantiate the theorems: floats are reals,
  the extractor returns one frame whose features all equal the first sample of the window,
  the session records the frame counts of its runs and returns zero logits, the decoder
  returns one label per frame.\<close>

definition mock_externals :: "(real, 32 word list) externals" where
  "mock_externals =
     \<lparr>f_zero = 0,
      f_of_short = (\<lambda>x. real_of_int (sint x)),
      f_mul = (\<lambda>a b. a * b),
      f_sub = (\<lambda>a b. a - b),
      f_literal = (\<lambda>r. r),
      csf_mfcc = (\<lambda>buf. (1, \<lambda>i. case buf of [] \<Rightarrow> 0 | y # _ \<Rightarrow> y)),
      session_run = (\<lambda>s input n. (s @ [n], Some (\<lambda>t. 0))),
      session_initialize_state = (\<lambda>s. (s, True)),
      ctc_beam_search_decoder = (\<lambda>inputs num_classes width. [map (\<lambda>_. 0) inputs]),
      LabelsToString = map (\<lambda>_. CHR ''a'')\<rparr>"

definition mock_model :: "32 word list ModelState" where
  "mock_model =
     \<lparr>session = [], alphabet_size = 28, beam_width = 500,
      n_steps = 2, mfcc_feats_per_timestep = 78, n_context = 1\<rparr>"

definition mock_stream :: "(real, 32 word list) StreamingState" where
  "mock_stream =
     \<lparr>accumulated_logits = [], audio_buffer = [], last_sample = 0,
      mfcc_buffer = replicate 26 0, batch_buffer = [], skip_next_mfcc = False,
      model = mock_model\<rparr>"

text \<open>A model as \<^verbatim>\<open>DS_CreateModel\<close> derives it from an input node of shape
  \<^verbatim>\<open>{batch, n_steps, 2*n_context+1, MFCC_FEATURES}\<close>: the features of a timestep are
  \<open>2 * n_context + 1\<close> vectors of \<open>MFCC_FEATURES\<close> values, there is at least one step
  in a batch, and the values of a batch and the logits of a batch can be counted in an
  \<^verbatim>\<open>int\<close> (the loop counters of \<open>infer\<close>).\<close>

definition wf_model :: "'s ModelState \<Rightarrow> bool" where
  "wf_model m \<longleftrightarrow>
     unat (mfcc_feats_per_timestep m) = MFCC_FEATURES * (2 * unat (n_context m) + 1) \<and>
     0 < unat (n_steps m) \<and>
     unat (n_steps m) * unat (mfcc_feats_per_timestep m) < 2 ^ 31 \<and>
     unat (n_steps m) * (alphabet_size m + 1) < 2 ^ 31"

text \<open>The sizes of the feature window and of the batch window between two operations.\<close>

definition buffers_ok :: "('f, 's) StreamingState \<Rightarrow> bool" where
  "buffers_ok st \<longleftrightarrow>
     wf_model (model st) \<and>
     MFCC_FEATURES dvd length (mfcc_buffer st) \<and>
     length (mfcc_buffer st) + MFCC_FEATURES \<le> unat (mfcc_feats_per_timestep (model st)) \<and>
     unat (mfcc_feats_per_timestep (model st)) dvd length (batch_buffer st) \<and>
     length (batch_buffer st) + unat (mfcc_feats_per_timestep (model st))
       \<le> unat (n_steps (model st)) * unat (mfcc_feats_per_timestep (model st))"

text \<open>The extractor returns one frame for every window (the source asserts it).\<close>

definition extractor_ok :: "('f, 's) externals \<Rightarrow> bool" where
  "extractor_ok ext \<longleftrightarrow> (\<forall>buf. fst (csf_mfcc ext buf) = 1)"

text \<open>The state after one inference call on \<open>n\<close> frames of \<open>buf\<close>, for a well-formed model.\<close>

definition run_batch ::
  "('f, 's) externals \<Rightarrow> ('f, 's) StreamingState \<Rightarrow> 'f list \<Rightarrow> 32 word \<Rightarrow> ('f, 's) StreamingState" where
  "run_batch ext st buf n =
     (case session_run ext (session (model st))
             (take (unat n * unat (mfcc_feats_per_timestep (model st))) buf @
              replicate ((unat (n_steps (model st)) - unat n) * unat (mfcc_feats_per_timestep (model st)))
                (f_zero ext)) n of
        (s', r) \<Rightarrow>
          st\<lparr>accumulated_logits :=
               (case r of
                  None \<Rightarrow> accumulated_logits st
                | Some logits_mapped \<Rightarrow>
                    accumulated_logits st @
                    map logits_mapped [0..<unat n * (alphabet_size (model st) + 1)]),
             model := (model st)\<lparr>session := s'\<rparr>\<rparr>)"

text \<open>One timestep into the batch window, with the inference call when that fills it.\<close>

definition emit_timestep ::
  "('f, 's) externals \<Rightarrow> ('f, 's) StreamingState \<Rightarrow> 'f list \<Rightarrow> ('f, 's) StreamingState" where
  "emit_timestep ext st buf =
     (if length (batch_buffer st) + length buf
           = unat (n_steps (model st)) * unat (mfcc_feats_per_timestep (model st))
      then (run_batch ext (st\<lparr>batch_buffer := batch_buffer st @ buf\<rparr>) (batch_buffer st @ buf)
              (n_steps (model st)))\<lparr>batch_buffer := []\<rparr>
      else st\<lparr>batch_buffer := batch_buffer st @ buf\<rparr>)"

text \<open>One feature vector into the feature window, with the timestep when that fills it.\<close>

definition push_vector ::
  "('f, 's) externals \<Rightarrow> ('f, 's) StreamingState \<Rightarrow> 'f list \<Rightarrow> ('f, 's) StreamingState" where
  "push_vector ext st v =
     (if length (mfcc_buffer st) + length v = unat (mfcc_feats_per_timestep (model st))
      then (emit_timestep ext (st\<lparr>mfcc_buffer := mfcc_buffer st @ v\<rparr>) (mfcc_buffer st @ v))
             \<lparr>mfcc_buffer := drop MFCC_FEATURES (mfcc_buffer st @ v)\<rparr>
      else st\<lparr>mfcc_buffer := mfcc_buffer st @ v\<rparr>)"

text \<open>The feature vector read from the array of the extractor.\<close>

definition features :: "('f, 's) externals \<Rightarrow> 'f list \<Rightarrow> 'f list" where
  "features ext buf = map (snd (csf_mfcc ext buf)) [0..<MFCC_FEATURES]"

text \<open>One raw window: the toggle, the assertion on the frame count, the feature vector.\<close>

definition process_window ::
  "('f, 's) externals \<Rightarrow> ('f, 's) StreamingState \<Rightarrow> 'f list \<Rightarrow> error + ('f, 's) StreamingState" where
  "process_window ext st buf =
     (if skip_next_mfcc st then Inr (st\<lparr>skip_next_mfcc := False\<rparr>)
      else if fst (csf_mfcc ext buf) \<noteq> 1 then Inl AssertionFailed
      else Inr (push_vector ext (st\<lparr>skip_next_mfcc := True\<rparr>) (features ext buf)))"

text \<open>Feeding sample by sample, as a total function.\<close>

fun feed_total ::
  "('f, 's) externals \<Rightarrow> ('f, 's) StreamingState \<Rightarrow> 16 word list \<Rightarrow> error + ('f, 's) StreamingState" where
  "feed_total ext st [] = Inr st"
| "feed_total ext st (x # xs) =
     (if length (audio_buffer (push_sample ext x st)) = AUDIO_WIN_LEN_SAMPLES then
        (case process_window ext (push_sample ext x st) (audio_buffer (push_sample ext x st)) of
           Inl e \<Rightarrow> Inl e
         | Inr s \<Rightarrow> feed_total ext (s\<lparr>audio_buffer := drop AUDIO_WIN_STEP_SAMPLES (audio_buffer s)\<rparr>) xs)
      else feed_total ext (push_sample ext x st) xs)"

text \<open>The state \<open>finishStream\<close> decodes: the raw window flushed, \<open>n_context\<close> zero
  vectors pushed, the partial batch run.\<close>

definition zero_vector :: "('f, 's) externals \<Rightarrow> 'f list" where
  "zero_vector ext = replicate MFCC_FEATURES (f_zero ext)"

definition flush_batch :: "('f, 's) externals \<Rightarrow> ('f, 's) StreamingState \<Rightarrow> ('f, 's) StreamingState" where
  "flush_batch ext st =
     (if batch_buffer st \<noteq> [] then
        run_batch ext st (batch_buffer st)
          (word_of_nat (length (batch_buffer st) div unat (mfcc_feats_per_timestep (model st))))
      else st)"

definition finish_state ::
  "('f, 's) externals \<Rightarrow> ('f, 's) StreamingState \<Rightarrow> error + ('f, 's) StreamingState" where
  "finish_state ext st =
     (case process_window ext st (audio_buffer st) of
        Inl e \<Rightarrow> Inl e
      | Inr s1 \<Rightarrow>
          Inr (flush_batch ext
                 (((\<lambda>s. push_vector ext s (zero_vector ext)) ^^ unat (n_context (model s1))) s1)))"

text \<open>The states of an active stream: set up, then fed any number of times.\<close>

inductive active :: "('f, 's) externals \<Rightarrow> 's ModelState \<Rightarrow> ('f, 's) StreamingState \<Rightarrow> bool"
  for ext :: "('f, 's) externals" and m :: "'s ModelState" where
  fresh: "DS_SetupStream ext m = Inr st \<Longrightarrow> active ext m st"
| fed: "active ext m st \<Longrightarrow> DS_FeedAudioContent ext st xs = Some (Inr st') \<Longrightarrow> active ext m st'"

text \<open>The size invariants of the feature window and of the batch window.\<close>

definition buffer_sizes_ok :: "('f, 's) StreamingState \<Rightarrow> bool" where
  "buffer_sizes_ok st \<longleftrightarrow>
     MFCC_FEATURES dvd length (mfcc_buffer st) \<and>
     length (mfcc_buffer st) \<le> unat (mfcc_feats_per_timestep (model st)) \<and>
     unat (mfcc_feats_per_timestep (model st)) dvd length (batch_buffer st) \<and>
     length (batch_buffer st) \<le> unat (n_steps (model st)) * unat (mfcc_feats_per_timestep (model st))"

text \<open>The end of \<open>finishStream\<close>: the final batch and the decoding.\<close>

definition finish_tail ::
  "('f, 's) externals \<Rightarrow> ('f, 's) StreamingState \<Rightarrow> (('f, 's) StreamingState \<times> string) result" where
  "finish_tail ext st2 =
     bind_r (if length (batch_buffer st2) > 0 then
               (if mfcc_feats_per_timestep (model st2) = 0 then Some (Inl UndefinedBehaviour)
                else Some (processBatch ext st2 (batch_buffer st2)
                             (word_of_nat (length (batch_buffer st2)
                                           div unat (mfcc_feats_per_timestep (model st2))))))
             else Some (Inr st2)) (\<lambda>st3.
     (case decode ext (model st3) (accumulated_logits st3) of
        Inl e \<Rightarrow> Some (Inl e)
      | Inr str \<Rightarrow> Some (Inr (st3, str))))"

text \<open>The stand-in collaborators with a session whose every run fails.\<close>

definition failing_externals :: "(real, 32 word list) externals" where
  "failing_externals = mock_externals\<lparr>session_run := (\<lambda>s input n. (s @ [n], None))\<rparr>"

text \<open>The number of raw windows completed once \<open>n\<close> samples have gone into an empty raw
  window: the first at \<open>AUDIO_WIN_LEN_SAMPLES\<close>, then one every \<open>AUDIO_WIN_STEP_SAMPLES\<close>.\<close>

definition nwin :: "nat \<Rightarrow> nat" where
  "nwin n = (if n < AUDIO_WIN_LEN_SAMPLES then 0
             else (n - AUDIO_WIN_LEN_SAMPLES) div AUDIO_WIN_STEP_SAMPLES + 1)"

text \<open>The pre-emphasis of a run of samples, starting from the previous raw sample, and a
  stream that buffered the run without completing a window.\<close>

fun preemphasis :: "('f, 's) externals \<Rightarrow> 'f \<Rightarrow> 16 word list \<Rightarrow> 'f list" where
  "preemphasis ext l [] = []"
| "preemphasis ext l (x # xs) =
     f_sub ext (f_of_short ext x) (f_mul ext (PREEMPHASIS_COEFF ext) l)
       # preemphasis ext (f_of_short ext x) xs"

definition fill ::
  "('f, 's) externals \<Rightarrow> ('f, 's) StreamingState \<Rightarrow> 16 word list \<Rightarrow> ('f, 's) StreamingState" where
  "fill ext st xs =
     st\<lparr>audio_buffer := audio_buffer st @ preemphasis ext (last_sample st) xs,
        last_sample := (if xs = [] then last_sample st else f_of_short ext (last xs))\<rparr>"

text \<open>What a result holds in its feature window and its toggle.\<close>

definition feature_window_of :: "('f, 's) StreamingState result \<Rightarrow> ('f list \<times> bool) result" where
  "feature_window_of r = bind_r r (\<lambda>s. Some (Inr (mfcc_buffer s, skip_next_mfcc s)))"

text \<open>A session that records the frame count of every run, read off by \<open>runs\<close>.\<close>

definition recording :: "('s \<Rightarrow> 32 word list) \<Rightarrow> ('f, 's) externals \<Rightarrow> bool" where
  "recording runs ext \<longleftrightarrow> (\<forall>s input n. runs (fst (session_run ext s input n)) = runs s @ [n])"

text \<open>The sizes that decide the control flow: the toggle, the lengths of the feature window
  and of the batch window, and the recorded runs; and what one feature vector, one raw
  window and the end of the stream do to them.\<close>

definition shape ::
  "('s \<Rightarrow> 32 word list) \<Rightarrow> ('f, 's) StreamingState \<Rightarrow> bool \<times> nat \<times> nat \<times> 32 word list" where
  "shape runs st =
     (skip_next_mfcc st, length (mfcc_buffer st), length (batch_buffer st), runs (session (model st)))"

definition abs_push :: "nat \<Rightarrow> 32 word \<Rightarrow> nat \<times> nat \<times> 32 word list \<Rightarrow> nat \<times> nat \<times> 32 word list" where
  "abs_push F ns sh =
     (case sh of (mbl, bbl, calls) \<Rightarrow>
        if mbl + MFCC_FEATURES = F then
          (if bbl + F = unat ns * F then (F - MFCC_FEATURES, 0, calls @ [ns])
           else (F - MFCC_FEATURES, bbl + F, calls))
        else (mbl + MFCC_FEATURES, bbl, calls))"

definition abs_window ::
  "nat \<Rightarrow> 32 word \<Rightarrow> bool \<times> nat \<times> nat \<times> 32 word list \<Rightarrow> bool \<times> nat \<times> nat \<times> 32 word list" where
  "abs_window F ns sh = (case sh of (skip, r) \<Rightarrow> if skip then (False, r) else (True, abs_push F ns r))"

definition abs_finish ::
  "nat \<Rightarrow> 32 word \<Rightarrow> nat \<Rightarrow> bool \<times> nat \<times> nat \<times> 32 word list \<Rightarrow> 32 word list" where
  "abs_finish F ns nc sh =
     (case (abs_push F ns ^^ nc) (snd (abs_window F ns sh)) of
        (mbl, bbl, calls) \<Rightarrow> if bbl \<noteq> 0 then calls @ [word_of_nat (bbl div F)] else calls)"

text \<open>The session state a result ends in.\<close>

definition session_of :: "('f, 's) StreamingState result \<Rightarrow> 's result" where
  "session_of r = bind_r r (\<lambda>s. Some (Inr (session (model s))))"

definition batch_buffer_of :: "('f, 's) StreamingState result \<Rightarrow> 'f list" where
  "batch_buffer_of r = (case r of Some (Inr s) \<Rightarrow> batch_buffer s | _ \<Rightarrow> [])"

definition session_of_finished :: "(('f, 's) StreamingState \<times> string) result \<Rightarrow> 's result" where
  "session_of_finished r = bind_r r (\<lambda>p. Some (Inr (session (model (fst p)))))"

text \<open>The input tensor of the one inference call of a stream that was fed nothing: the
  features of the empty raw window between \<open>n_context\<close> zero vectors on either side, and
  zeros in the timesteps of the batch that are not used.\<close>

definition empty_stream_input :: "('f, 's) externals \<Rightarrow> 's ModelState \<Rightarrow> 'f list" where
  "empty_stream_input ext m =
     (replicate (MFCC_FEATURES * unat (n_context m)) (f_zero ext) @
      map (snd (csf_mfcc ext [])) [0..<MFCC_FEATURES] @
      replicate (MFCC_FEATURES * unat (n_context m)) (f_zero ext)) @
     replicate ((unat (n_steps m) - 1) * unat (mfcc_feats_per_timestep m)) (f_zero ext)"

text \<open>Modelled from the spec: the CTC decoder and the alphabet (\<^verbatim>\<open>ctc_beam_search_decoder\<close>,
  \<^verbatim>\<open>Alphabet::LabelsToString\<close>) are not in the source file. The decoder maps a logit
  sequence to its best transcript, and "on an empty logit sequence the result is an empty
  transcript (explicit contract, not an error)": given zero frames the decoder returns a
  best result, it has no labels, and no labels make the empty string.\<close>

definition decoder_contract :: "('f, 's) externals \<Rightarrow> bool" where
  "decoder_contract ext \<longleftrightarrow>
     (\<forall>num_classes width.
        ctc_beam_search_decoder ext [] num_classes width \<noteq> [] \<and>
        hd (ctc_beam_search_decoder ext [] num_classes width) = []) \<and>
     LabelsToString ext [] = []"

text \<open>The feature window followed by \<open>k\<close> zero vectors, and the timesteps it holds: the
  runs of \<open>mfcc_feats_per_timestep\<close> values that start at the offsets \<open>0\<close>,
  \<open>MFCC_FEATURES\<close>, \<open>2 * MFCC_FEATURES\<close>, ... and end within it.\<close>

definition padded_window :: "('f, 's) externals \<Rightarrow> ('f, 's) StreamingState \<Rightarrow> nat \<Rightarrow> 'f list" where
  "padded_window ext st k = mfcc_buffer st @ replicate (MFCC_FEATURES * k) (f_zero ext)"

definition padding_timesteps :: "('f, 's) externals \<Rightarrow> ('f, 's) StreamingState \<Rightarrow> nat \<Rightarrow> 'f list list" where
  "padding_timesteps ext st k =
     map (\<lambda>i. take (unat (mfcc_feats_per_timestep (model st)))
                  (drop (MFCC_FEATURES * i) (padded_window ext st k)))
       [0..<(length (padded_window ext st k) + MFCC_FEATURES
               - unat (mfcc_feats_per_timestep (model st))) div MFCC_FEATURES]"

text \<open>A sequence of timesteps handed to \<open>processMfccWindow\<close> one after the other.\<close>

fun process_timesteps ::
  "('f, 's) externals \<Rightarrow> ('f, 's) StreamingState \<Rightarrow> 'f list list \<Rightarrow> ('f, 's) StreamingState result" where
  "process_timesteps ext st [] = Some (Inr st)"
| "process_timesteps ext st (t # ts) =
     bind_r (processMfccWindow ext st t) (\<lambda>s. process_timesteps ext s ts)"

text \<open>The stand-in stream after the 400 samples 1, 0, 0, ...: one raw window was processed,
  its feature vector (26 times the value 1) follows the initial zeros in the feature
  window, and the 240 samples kept are zeros.\<close>

definition one_window_stream :: "(real, 32 word list) StreamingState" where
  "one_window_stream =
     mock_stream\<lparr>audio_buffer := replicate 240 0,
                 mfcc_buffer := replicate 26 0 @ replicate 26 1,
                 skip_next_mfcc := True\<rparr>"

text \<open>A session that records every run: its frame count and whether the status was ok.
  \<open>logits_due\<close> is the number of logits the recorded runs owe: \<open>num_classes\<close> for every
  frame of a run that succeeded, none for a run that failed.\<close>

definition logging :: "('s \<Rightarrow> (32 word \<times> bool) list) \<Rightarrow> ('f, 's) externals \<Rightarrow> bool" where
  "logging calls ext \<longleftrightarrow>
     (\<forall>s input n. calls (fst (session_run ext s input n))
                    = calls s @ [(n, snd (session_run ext s input n) \<noteq> None)])"

definition logits_due :: "nat \<Rightarrow> (32 word \<times> bool) list \<Rightarrow> nat" where
  "logits_due num_classes calls =
     sum_list (map (\<lambda>(n, ok). if ok then unat n * num_classes else 0) calls)"

text \<open>From one state to a later one: the session has recorded further runs, and the logits
  were extended by what these runs owe.\<close>

definition grows ::
  "('s \<Rightarrow> (32 word \<times> bool) list) \<Rightarrow> nat \<Rightarrow> ('f, 's) StreamingState \<Rightarrow> ('f, 's) StreamingState \<Rightarrow> bool" where
  "grows calls num_classes st st' \<longleftrightarrow>
     (\<exists>new ys. calls (session (model st')) = calls (session (model st)) @ new \<and>
               accumulated_logits st' = accumulated_logits st @ ys \<and>
               length ys = logits_due num_classes new)"

text \<open>The stand-in collaborators with a session whose first run fails and whose later runs
  succeed with logits 1, and the record of the runs of such a session.\<close>

definition flaky_externals :: "(real, 32 word list) externals" where
  "flaky_externals =
     mock_externals\<lparr>session_run := (\<lambda>s input n. (s @ [n], if s = [] then None else Some (\<lambda>t. 1)))\<rparr>"

definition flaky_calls :: "32 word list \<Rightarrow> (32 word \<times> bool) list" where
  "flaky_calls s = (case s of [] \<Rightarrow> [] | n # ns \<Rightarrow> (n, False) # map (\<lambda>k. (k, True)) ns)"

text \<open>Exact arithmetic on real numbers in place of the \<^verbatim>\<open>float\<close> operations.\<close>

definition exact_floats :: "(real, 's) externals \<Rightarrow> bool" where
  "exact_floats ext \<longleftrightarrow>
     f_of_short ext = (\<lambda>x. real_of_int (sint x)) \<and> f_mul ext = (\<lambda>a b. a * b) \<and>
     f_sub ext = (\<lambda>a b. a - b) \<and> f_literal ext = (\<lambda>r. r)"

section \<open>Properties\<close>

subsection \<open>Basic facts\<close>

lemma bind_r_simps [simp]:
  "bind_r None f = None"
  "bind_r (Some (Inl e)) f = Some (Inl e)"
  "bind_r (Some (Inr x)) f = f x"
  by (simp_all add: bind_r_def)

lemma bind_r_return [simp]: "bind_r r (\<lambda>x. Some (Inr x)) = r"
  by (simp add: bind_r_def split: option.splits sum.splits)

lemma bind_r_assoc: "bind_r (bind_r r f) g = bind_r r (\<lambda>x. bind_r (f x) g)"
  by (simp add: bind_r_def split: option.splits sum.splits)

lemma unat_gap: 
  assumes "n \<le> unat (w::32 word)" shows "unat (w - word_of_nat n) = unat w - n"
proof -
  have "unat w < 2 ^ LENGTH(32)" by (rule unsigned_less)
  then have "n < 2 ^ 32" using assms by simp
  then have "n mod 4294967296 = n" by simp
  with assms show ?thesis by (simp add: unat_sub_if' unat_of_nat word_le_nat_alt)
qed

lemma infer_config: "infer ext m buf n lo = Inr (m', lo') \<Longrightarrow> config m' = config m"
  by (auto simp: infer_def config_def Let_def split: if_splits prod.splits option.splits)

lemma processBatch_frame:
  "processBatch ext st buf n = Inr st' \<Longrightarrow>
     audio_buffer st' = audio_buffer st \<and> last_sample st' = last_sample st \<and>
     mfcc_buffer st' = mfcc_buffer st \<and> batch_buffer st' = batch_buffer st \<and>
     skip_next_mfcc st' = skip_next_mfcc st \<and> config (model st') = config (model st)"
  by (auto simp: processBatch_def split: sum.splits dest: infer_config)

lemmas processMfccWindow_induct = processMfccWindow.raw_induct[rotated 1, consumes 1, case_names step]

lemma processMfccWindow_frame_aux:
  "processMfccWindow ext st rest = Some y \<Longrightarrow> \<forall>st'. y = Inr st' \<longrightarrow> frame_upto_batch st st'"
  proof (induction rule: processMfccWindow_induct)
    case (step f ext st rest y)
    note 1 = step
    define cap where "cap = n_steps (model st) * mfcc_feats_per_timestep (model st)"
    define n where "n = unat (min (word_of_nat (length rest) :: 32 word)
        (cap - word_of_nat (length (batch_buffer st))))"
    define st1 where "st1 = st\<lparr>batch_buffer := batch_buffer st @ take n rest\<rparr>"
    have body: "(if rest = [] then Some (Inr st)
      else if \<not> length (batch_buffer st1) \<le> unat cap then Some (Inl AssertionFailed)
            else if length (batch_buffer st1) = unat cap then
              (case processBatch ext st1 (batch_buffer st1) (n_steps (model st1)) of
                 Inl e \<Rightarrow> Some (Inl e)
               | Inr st2 \<Rightarrow> f ext (st2\<lparr>batch_buffer := []\<rparr>) (drop n rest))
            else f ext st1 (drop n rest)) = Some y"
      using 1(2) unfolding Let_def n_def st1_def cap_def .
    have fr1: "frame_upto_batch st st1" by (simp add: frame_upto_batch_def st1_def)
    show ?case
    proof (cases "rest = []")
      case True
      with body show ?thesis by (auto simp: frame_upto_batch_def)
    next
      case False
      show ?thesis
      proof (cases "length (batch_buffer st1) \<le> unat cap")
        case False
        with body \<open>rest \<noteq> []\<close> show ?thesis by auto
      next
        case le: True
        show ?thesis
        proof (cases "length (batch_buffer st1) = unat cap")
          case False
          with body le \<open>rest \<noteq> []\<close> have "f ext st1 (drop n rest) = Some y" by simp
          from 1(1)[OF this] fr1 show ?thesis by (simp add: frame_upto_batch_def)
        next
          case True
          show ?thesis
          proof (cases "processBatch ext st1 (batch_buffer st1) (n_steps (model st1))")
            case (Inl e)
            with body le True \<open>rest \<noteq> []\<close> show ?thesis by auto
          next
            case (Inr st2)
            with body le True \<open>rest \<noteq> []\<close> have "f ext (st2\<lparr>batch_buffer := []\<rparr>) (drop n rest) = Some y" by simp
            from 1(1)[OF this] fr1 processBatch_frame[OF Inr] show ?thesis by (simp add: frame_upto_batch_def)
          qed
        qed
      qed
    qed
  qed

lemma processMfccWindow_frame:
  "processMfccWindow ext st rest = Some (Inr st') \<Longrightarrow> frame_upto_batch st st'"
  using processMfccWindow_frame_aux by blast

lemma take_rotate_drop: "n \<le> length v \<Longrightarrow> take (length v - n) (std_rotate n v) = drop n v"
  by (simp add: std_rotate_def)

lemmas pushMfccBuffer_induct = pushMfccBuffer.raw_induct[rotated 1, consumes 1, case_names step]

lemma pushMfccBuffer_step:
  assumes "buf \<noteq> []"
  shows "pushMfccBuffer ext st buf =
     (let n = min (length buf) (unat (mfcc_feats_per_timestep (model st) - word_of_nat (length (mfcc_buffer st))));
          st1 = st\<lparr>mfcc_buffer := mfcc_buffer st @ take n buf\<rparr>
      in if unat (mfcc_feats_per_timestep (model st)) < length (mfcc_buffer st) + n then Some (Inl AssertionFailed)
         else if length (mfcc_buffer st) + n = unat (mfcc_feats_per_timestep (model st)) then
           bind_r (processMfccWindow ext st1 (mfcc_buffer st1)) (\<lambda>st2.
             if length (mfcc_buffer st2) < MFCC_FEATURES then Some (Inl UndefinedBehaviour)
             else pushMfccBuffer ext (st2\<lparr>mfcc_buffer := drop MFCC_FEATURES (mfcc_buffer st2)\<rparr>) (drop n buf))
         else pushMfccBuffer ext st1 (drop n buf))"
proof -
  have *: "\<not> length x < MFCC_FEATURES \<Longrightarrow> take (length x - MFCC_FEATURES) (std_rotate MFCC_FEATURES x) = drop MFCC_FEATURES x" for x :: "'a list"
    by (simp add: take_rotate_drop)
  show ?thesis
    apply (subst pushMfccBuffer.simps)
    using assms
    apply (simp add: Let_def bind_r_def not_le split: option.splits sum.splits)
    apply (auto simp: * min_def)
    done
qed

lemma frame_upto_batch_mfcc: "frame_upto_batch st st' \<Longrightarrow> frame_upto_mfcc st st'"
  by (simp add: frame_upto_batch_def frame_upto_mfcc_def)

lemma pushMfccBuffer_frame_aux:
  "pushMfccBuffer ext st buf = Some y \<Longrightarrow> \<forall>st'. y = Inr st' \<longrightarrow> frame_upto_mfcc st st'"
proof (induction rule: pushMfccBuffer_induct)
  case (step f ext st buf y)
  define feats where "feats = mfcc_feats_per_timestep (model st)"
  define n where "n = min (length buf) (unat (feats - word_of_nat (length (mfcc_buffer st))))"
  define st1 where "st1 = st\<lparr>mfcc_buffer := mfcc_buffer st @ take n buf\<rparr>"
  define shifted where "shifted = (\<lambda>st2 :: ('a, 'b) StreamingState. st2\<lparr>mfcc_buffer :=
                                 take (length (mfcc_buffer st2) - MFCC_FEATURES)
                                      (std_rotate MFCC_FEATURES (mfcc_buffer st2))\<rparr>)"
  have body: "(if buf = [] then Some (Inr st)
      else if \<not> length (mfcc_buffer st1) \<le> unat feats then Some (Inl AssertionFailed)
            else if length (mfcc_buffer st1) = unat feats then
              (case processMfccWindow ext st1 (mfcc_buffer st1) of
                 None \<Rightarrow> None
               | Some (Inl e) \<Rightarrow> Some (Inl e)
               | Some (Inr st2) \<Rightarrow>
                   if length (mfcc_buffer st2) < MFCC_FEATURES then Some (Inl UndefinedBehaviour)
                   else f ext (shifted st2) (drop n buf))
            else f ext st1 (drop n buf)) = Some y"
    using step(2) unfolding Let_def n_def st1_def feats_def shifted_def .
  have fr1: "frame_upto_mfcc st st1" by (simp add: frame_upto_mfcc_def st1_def)
  show ?case
  proof (cases "buf = []")
    case True
    with body show ?thesis by (auto simp: frame_upto_mfcc_def)
  next
    case ne: False
    show ?thesis
    proof (cases "length (mfcc_buffer st1) \<le> unat feats")
      case False
      with body ne show ?thesis by auto
    next
      case le: True
      show ?thesis
      proof (cases "length (mfcc_buffer st1) = unat feats")
        case False
        with body le ne have "f ext st1 (drop n buf) = Some y" by simp
        from step(1)[OF this] fr1 show ?thesis by (simp add: frame_upto_mfcc_def)
      next
        case full: True
        show ?thesis
        proof (cases "processMfccWindow ext st1 (mfcc_buffer st1)")
          case None
          with body le full ne show ?thesis by simp
        next
          case (Some r)
          show ?thesis
          proof (cases r)
            case (Inl e)
            with Some body le full ne show ?thesis by auto
          next
            case (Inr st2)
            have fr2: "frame_upto_mfcc st1 st2"
              using processMfccWindow_frame Some Inr frame_upto_batch_mfcc by blast
            show ?thesis
            proof (cases "length (mfcc_buffer st2) < MFCC_FEATURES")
              case True
              with Inr Some body le full ne show ?thesis by auto
            next
              case False
              with Inr Some body le full ne have "f ext (shifted st2) (drop n buf) = Some y" by simp
              from step(1)[OF this] fr1 fr2 show ?thesis by (simp add: frame_upto_mfcc_def shifted_def)
            qed
          qed
        qed
      qed
    qed
  qed
qed

lemma pushMfccBuffer_frame:
  "pushMfccBuffer ext st buf = Some (Inr st') \<Longrightarrow> frame_upto_mfcc st st'"
  using pushMfccBuffer_frame_aux by blast

lemma bind_r_cong:
  "(\<And>x. r = Some (Inr x) \<Longrightarrow> f x = g x) \<Longrightarrow> bind_r r f = bind_r r g"
  by (auto simp: bind_r_def split: option.splits sum.splits)

lemma pushMfccBuffer_Nil [simp]: "pushMfccBuffer ext st [] = Some (Inr st)"
  by (simp add: pushMfccBuffer.simps)

lemma pushMfccBuffer_fail:
  assumes "buf \<noteq> []" "unat (mfcc_feats_per_timestep (model st)) < length (mfcc_buffer st)"
  shows "pushMfccBuffer ext st buf = Some (Inl AssertionFailed)"
  using assms by (simp add: pushMfccBuffer_step Let_def)

lemma pushMfccBuffer_part:
  assumes "buf \<noteq> []" "length (mfcc_buffer st) + length buf < unat (mfcc_feats_per_timestep (model st))"
  shows "pushMfccBuffer ext st buf = Some (Inr (st\<lparr>mfcc_buffer := mfcc_buffer st @ buf\<rparr>))"
proof -
  have "length (mfcc_buffer st) \<le> unat (mfcc_feats_per_timestep (model st))" using assms by simp
  from unat_gap[OF this] assms
  have n: "min (length buf) (unat (mfcc_feats_per_timestep (model st) - word_of_nat (length (mfcc_buffer st)))) = length buf"
    by simp
  show ?thesis
    apply (subst pushMfccBuffer_step[OF assms(1)])
    unfolding n Let_def
    using assms(2) by simp
qed

lemma pushMfccBuffer_full:
  assumes "buf \<noteq> []" "length (mfcc_buffer st) \<le> unat (mfcc_feats_per_timestep (model st))"
    and "unat (mfcc_feats_per_timestep (model st)) - length (mfcc_buffer st) \<le> length buf"
    and "g = unat (mfcc_feats_per_timestep (model st)) - length (mfcc_buffer st)"
  shows "pushMfccBuffer ext st buf =
           bind_r (processMfccWindow ext (st\<lparr>mfcc_buffer := mfcc_buffer st @ take g buf\<rparr>)
                     (mfcc_buffer st @ take g buf)) (\<lambda>st2.
             if length (mfcc_buffer st2) < MFCC_FEATURES then Some (Inl UndefinedBehaviour)
             else pushMfccBuffer ext (st2\<lparr>mfcc_buffer := drop MFCC_FEATURES (mfcc_buffer st2)\<rparr>) (drop g buf))"
proof -
  from unat_gap[OF assms(2)] assms
  have n: "min (length buf) (unat (mfcc_feats_per_timestep (model st) - word_of_nat (length (mfcc_buffer st)))) = g"
    by simp
  show ?thesis
    apply (subst pushMfccBuffer_step[OF assms(1)])
    unfolding n Let_def
    using assms(2,3,4) by simp
qed

lemma pushMfccBuffer_append:
  "pushMfccBuffer ext st (a @ b) = bind_r (pushMfccBuffer ext st a) (\<lambda>s. pushMfccBuffer ext s b)"
proof (induction "2 * length a + (if length (mfcc_buffer st) = unat (mfcc_feats_per_timestep (model st)) then 1 else 0 :: nat)"
         arbitrary: st a rule: less_induct)
  case less
  define F where "F = unat (mfcc_feats_per_timestep (model st))"
  define g where "g = F - length (mfcc_buffer st)"
  have geq: "g = unat (mfcc_feats_per_timestep (model st)) - length (mfcc_buffer st)"
    by (simp add: g_def F_def)
  show ?case
  proof (cases "a = [] \<or> b = []")
    case True
    then show ?thesis by auto
  next
    case False
    then have a: "a \<noteq> []" and b: "b \<noteq> []" and ab: "a @ b \<noteq> []" by auto
    show ?thesis
    proof (cases "length (mfcc_buffer st) \<le> F")
      case False
      then have "pushMfccBuffer ext st (a @ b) = Some (Inl AssertionFailed)"
        and "pushMfccBuffer ext st a = Some (Inl AssertionFailed)"
        using a by (simp_all add: pushMfccBuffer_fail F_def)
      then show ?thesis by simp
    next
      case True
      then have le: "length (mfcc_buffer st) \<le> unat (mfcc_feats_per_timestep (model st))"
        by (simp add: F_def)
      show ?thesis
      proof (cases "g \<le> length a")
        case gle: True
        define st1 where "st1 = st\<lparr>mfcc_buffer := mfcc_buffer st @ take g a\<rparr>"
        define sh where "sh = (\<lambda>st2 :: ('a, 'b) StreamingState. st2\<lparr>mfcc_buffer := drop MFCC_FEATURES (mfcc_buffer st2)\<rparr>)"
        have c1: "unat (mfcc_feats_per_timestep (model st)) - length (mfcc_buffer st) \<le> length (a @ b)"
          and c2: "unat (mfcc_feats_per_timestep (model st)) - length (mfcc_buffer st) \<le> length a"
          using gle by (simp_all add: geq[symmetric])
        have ta: "take g (a @ b) = take g a" "drop g (a @ b) = drop g a @ b"
          using gle by simp_all
        have L: "pushMfccBuffer ext st (a @ b) =
           bind_r (processMfccWindow ext st1 (mfcc_buffer st1)) (\<lambda>st2.
             if length (mfcc_buffer st2) < MFCC_FEATURES then Some (Inl UndefinedBehaviour)
             else pushMfccBuffer ext (sh st2) (drop g a @ b))"
          unfolding pushMfccBuffer_full[OF ab le c1 geq] ta st1_def sh_def
          by simp
        have R: "pushMfccBuffer ext st a =
           bind_r (processMfccWindow ext st1 (mfcc_buffer st1)) (\<lambda>st2.
             if length (mfcc_buffer st2) < MFCC_FEATURES then Some (Inl UndefinedBehaviour)
             else pushMfccBuffer ext (sh st2) (drop g a))"
          unfolding pushMfccBuffer_full[OF a le c2 geq] st1_def sh_def
          by simp
        have IH: "pushMfccBuffer ext (sh st2) (drop g a @ b) =
                  bind_r (pushMfccBuffer ext (sh st2) (drop g a)) (\<lambda>s. pushMfccBuffer ext s b)"
          if st2: "processMfccWindow ext st1 (mfcc_buffer st1) = Some (Inr st2)"
            and ge: "\<not> length (mfcc_buffer st2) < MFCC_FEATURES" for st2
        proof (rule less)
          from processMfccWindow_frame[OF st2]
          have mb2: "mfcc_buffer st2 = mfcc_buffer st1" and "config (model st2) = config (model st1)"
            by (simp_all add: frame_upto_batch_def)
          then have F2: "unat (mfcc_feats_per_timestep (model (sh st2))) = F"
            by (simp add: config_def sh_def st1_def F_def)
          have len1: "length (mfcc_buffer st1) = F"
            using gle True by (simp add: st1_def g_def)
          have len2: "length (mfcc_buffer (sh st2)) = F - MFCC_FEATURES"
            using mb2 len1 by (simp add: sh_def)
          have "MFCC_FEATURES \<le> F" using ge mb2 len1 by simp
          then have ne: "length (mfcc_buffer (sh st2)) \<noteq> F"
            using len2 by (simp add: MFCC_FEATURES_def)
          show "2 * length (drop g a) +
                (if length (mfcc_buffer (sh st2)) = unat (mfcc_feats_per_timestep (model (sh st2))) then 1 else 0)
                < 2 * length a + (if length (mfcc_buffer st) = unat (mfcc_feats_per_timestep (model st)) then 1 else 0)"
          proof (cases "g = 0")
            case True
            with True \<open>length (mfcc_buffer st) \<le> F\<close> have "length (mfcc_buffer st) = F" by (simp add: g_def)
            then show ?thesis using ne F2 by (simp add: F_def)
          next
            case False
            then have "length (drop g a) < length a" using a by simp
            then show ?thesis using ne F2 by simp
          qed
        qed
        show ?thesis
          unfolding L R bind_r_assoc
          by (rule bind_r_cong) (simp add: IH)
      next
        case ggt: False
        define st1 where "st1 = st\<lparr>mfcc_buffer := mfcc_buffer st @ a\<rparr>"
        have "length (mfcc_buffer st) + length a < unat (mfcc_feats_per_timestep (model st))"
          using ggt True by (simp add: g_def F_def)
        from pushMfccBuffer_part[OF a this]
        have R1: "pushMfccBuffer ext st a = Some (Inr st1)"
          by (simp add: st1_def)
        have F1: "unat (mfcc_feats_per_timestep (model st1)) = F" "length (mfcc_buffer st1) = length (mfcc_buffer st) + length a"
          by (simp_all add: st1_def F_def)
        have "pushMfccBuffer ext st (a @ b) = pushMfccBuffer ext st1 b"
        proof (cases "g \<le> length a + length b")
          case True
          have ta: "take g (a @ b) = a @ take (g - length a) b" "drop g (a @ b) = drop (g - length a) b"
            using ggt by simp_all
          have c1: "unat (mfcc_feats_per_timestep (model st)) - length (mfcc_buffer st) \<le> length (a @ b)"
            using True by (simp add: geq[symmetric])
          have le1: "length (mfcc_buffer st1) \<le> unat (mfcc_feats_per_timestep (model st1))"
            using ggt \<open>length (mfcc_buffer st) \<le> F\<close> by (simp add: F1 g_def)
          have c2: "unat (mfcc_feats_per_timestep (model st1)) - length (mfcc_buffer st1) \<le> length b"
            using True ggt by (simp add: F1 g_def)
          have geq1: "g - length a = unat (mfcc_feats_per_timestep (model st1)) - length (mfcc_buffer st1)"
            by (simp add: F1 g_def)
          show ?thesis
            unfolding pushMfccBuffer_full[OF ab le c1 geq] pushMfccBuffer_full[OF b le1 c2 geq1] ta
            by (simp add: st1_def)
        next
          case False
          have p1: "length (mfcc_buffer st) + length (a @ b) < unat (mfcc_feats_per_timestep (model st))"
            using False \<open>length (mfcc_buffer st) \<le> F\<close> by (simp add: g_def F_def)
          have p2: "length (mfcc_buffer st1) + length b < unat (mfcc_feats_per_timestep (model st1))"
            using p1 by (simp add: F1 F_def)
          show ?thesis
            unfolding pushMfccBuffer_part[OF ab p1] pushMfccBuffer_part[OF b p2]
            by (simp add: st1_def)
        qed
        then show ?thesis by (simp add: R1)
      qed
    qed
  qed
qed

lemmas feedAudioContent_induct = feedAudioContent.raw_induct[rotated 1, consumes 1, case_names step]

lemma feedAudioContent_Nil [simp]: "feedAudioContent ext st [] = Some (Inr st)"
  by (simp add: feedAudioContent.simps)

lemma processAudioWindow_frame:
  assumes "processAudioWindow ext st buf = Some (Inr st')"
  shows "audio_buffer st' = audio_buffer st \<and> last_sample st' = last_sample st \<and>
         skip_next_mfcc st' = (\<not> skip_next_mfcc st) \<and> config (model st') = config (model st)"
proof (cases "skip_next_mfcc st")
  case True
  with assms show ?thesis by (auto simp: processAudioWindow_def)
next
  case False
  with assms obtain mfcc where
    "pushMfccBuffer ext (st\<lparr>skip_next_mfcc := True\<rparr>) mfcc = Some (Inr st')"
    by (auto simp: processAudioWindow_def split: prod.splits if_splits)
  from pushMfccBuffer_frame[OF this] False show ?thesis
    by (simp add: frame_upto_mfcc_def)
qed

lemma feed_inner_full:
  "\<not> length (audio_buffer st) < AUDIO_WIN_LEN_SAMPLES \<Longrightarrow> feed_inner ext st buf = (st, buf)"
  by (cases buf) simp_all

lemma feedAudioContent_unfold:
  assumes "buffer \<noteq> []"
  shows "feedAudioContent ext st buffer =
     (case feed_inner ext st buffer of
        (st1, buffer1) \<Rightarrow>
          if length (audio_buffer st1) = AUDIO_WIN_LEN_SAMPLES then
            bind_r (window_step ext st1) (\<lambda>s. feedAudioContent ext s buffer1)
          else feedAudioContent ext st1 buffer1)"
proof -
  obtain st1 buffer1 where fi: "feed_inner ext st buffer = (st1, buffer1)" by (cases "feed_inner ext st buffer")
  show ?thesis
  proof (cases "length (audio_buffer st1) = AUDIO_WIN_LEN_SAMPLES")
    case False
    show ?thesis
      apply (subst feedAudioContent.simps)
      using assms False by (simp add: fi)
  next
    case True
    have sh: "take (length (audio_buffer st2) - AUDIO_WIN_STEP_SAMPLES)
                 (std_rotate AUDIO_WIN_STEP_SAMPLES (audio_buffer st2)) = drop AUDIO_WIN_STEP_SAMPLES (audio_buffer st2)"
      if "processAudioWindow ext st1 (audio_buffer st1) = Some (Inr st2)" for st2
    proof -
      from processAudioWindow_frame[OF that] True
      have "AUDIO_WIN_STEP_SAMPLES \<le> length (audio_buffer st2)"
        by (simp add: AUDIO_WIN_STEP_SAMPLES_def AUDIO_WIN_LEN_SAMPLES_def)
      then show ?thesis by (rule take_rotate_drop)
    qed
    show ?thesis
      apply (subst feedAudioContent.simps)
      using assms True
      apply (simp add: fi window_step_def bind_r_assoc)
      apply (cases "processAudioWindow ext st1 (audio_buffer st1)")
       apply simp
      subgoal for r by (cases r) (simp_all add: sh)
      done
  qed
qed

lemma feedAudioContent_sample:
  assumes "length (audio_buffer st) < AUDIO_WIN_LEN_SAMPLES"
  shows "feedAudioContent ext st (x # xs) =
     (if length (audio_buffer (push_sample ext x st)) = AUDIO_WIN_LEN_SAMPLES then
        bind_r (window_step ext (push_sample ext x st)) (\<lambda>s. feedAudioContent ext s xs)
      else feedAudioContent ext (push_sample ext x st) xs)"
proof -
  let ?st' = "push_sample ext x st"
  have fi: "feed_inner ext st (x # xs) = feed_inner ext ?st' xs"
    using assms by (simp add: push_sample_def Let_def)
  show ?thesis
  proof (cases "length (audio_buffer ?st') = AUDIO_WIN_LEN_SAMPLES")
    case True
    then have "feed_inner ext ?st' xs = (?st', xs)" by (simp add: feed_inner_full)
    with True fi show ?thesis by (simp add: feedAudioContent_unfold)
  next
    case False
    show ?thesis
    proof (cases "xs = []")
      case True
      with False fi show ?thesis by (simp add: feedAudioContent_unfold)
    next
      case ne: False
      have L: "feedAudioContent ext st (x # xs) =
        (case feed_inner ext ?st' xs of
          (st1, buffer1) \<Rightarrow>
            if length (audio_buffer st1) = AUDIO_WIN_LEN_SAMPLES then
              bind_r (window_step ext st1) (\<lambda>s. feedAudioContent ext s buffer1)
            else feedAudioContent ext st1 buffer1)"
        unfolding fi[symmetric] by (rule feedAudioContent_unfold) simp
      show ?thesis
        unfolding L using False by (simp add: feedAudioContent_unfold[OF ne, symmetric])
    qed
  qed
qed

lemma feedAudioContent_full:
  assumes "length (audio_buffer st) = AUDIO_WIN_LEN_SAMPLES" "buffer \<noteq> []"
  shows "feedAudioContent ext st buffer = bind_r (window_step ext st) (\<lambda>s. feedAudioContent ext s buffer)"
  using assms by (simp add: feedAudioContent_unfold feed_inner_full)

lemma feedAudioContent_stuck_aux:
  "feedAudioContent ext st buffer = Some y \<Longrightarrow>
     \<not> (AUDIO_WIN_LEN_SAMPLES < length (audio_buffer st) \<and> buffer \<noteq> [])"
proof (induction rule: feedAudioContent_induct)
  case (step f ext st buffer y)
  show ?case
  proof
    assume stuck: "AUDIO_WIN_LEN_SAMPLES < length (audio_buffer st) \<and> buffer \<noteq> []"
    then have "feed_inner ext st buffer = (st, buffer)" by (simp add: feed_inner_full)
    with step(2) stuck have "f ext st buffer = Some y" by simp
    from step(1)[OF this] stuck show False by simp
  qed
qed

lemma feedAudioContent_stuck:
  "AUDIO_WIN_LEN_SAMPLES < length (audio_buffer st) \<Longrightarrow> buffer \<noteq> [] \<Longrightarrow>
     feedAudioContent ext st buffer = None"
  using feedAudioContent_stuck_aux[of ext st buffer] by (cases "feedAudioContent ext st buffer") auto

lemma window_step_audio:
  assumes "window_step ext st = Some (Inr s)"
  shows "audio_buffer s = drop AUDIO_WIN_STEP_SAMPLES (audio_buffer st)"
proof -
  from assms obtain st2 where p: "processAudioWindow ext st (audio_buffer st) = Some (Inr st2)"
    and s: "s = st2\<lparr>audio_buffer := drop AUDIO_WIN_STEP_SAMPLES (audio_buffer st2)\<rparr>"
    by (auto simp: window_step_def bind_r_def split: option.splits sum.splits)
  from processAudioWindow_frame[OF p] s show ?thesis by simp
qed

lemma feedAudioContent_append_normal:
  "length (audio_buffer st) < AUDIO_WIN_LEN_SAMPLES \<Longrightarrow>
     feedAudioContent ext st (a @ b) = bind_r (feedAudioContent ext st a) (\<lambda>s. feedAudioContent ext s b)"
proof (induction a arbitrary: st)
  case Nil
  show ?case by simp
next
  case (Cons x xs)
  let ?st' = "push_sample ext x st"
  show ?case
  proof (cases "length (audio_buffer ?st') = AUDIO_WIN_LEN_SAMPLES")
    case True
    have IH: "feedAudioContent ext s (xs @ b) = bind_r (feedAudioContent ext s xs) (\<lambda>s. feedAudioContent ext s b)"
      if "window_step ext ?st' = Some (Inr s)" for s
    proof (rule Cons.IH)
      from window_step_audio[OF that] True
      show "length (audio_buffer s) < AUDIO_WIN_LEN_SAMPLES"
        by (simp add: AUDIO_WIN_LEN_SAMPLES_def AUDIO_WIN_STEP_SAMPLES_def)
    qed
    show ?thesis
      using True Cons.prems
      apply (simp add: feedAudioContent_sample bind_r_assoc)
      apply (rule bind_r_cong)
      apply (simp add: IH)
      done
  next
    case False
    with Cons.prems have "length (audio_buffer ?st') < AUDIO_WIN_LEN_SAMPLES"
      by (simp add: push_sample_def)
    from Cons.IH[OF this] False Cons.prems show ?thesis
      by (simp add: feedAudioContent_sample)
  qed
qed

lemma feedAudioContent_append:
  "feedAudioContent ext st (a @ b) = bind_r (feedAudioContent ext st a) (\<lambda>s. feedAudioContent ext s b)"
proof (cases "a = []")
  case True
  then show ?thesis by simp
next
  case ne: False
  consider (normal) "length (audio_buffer st) < AUDIO_WIN_LEN_SAMPLES"
    | (full) "length (audio_buffer st) = AUDIO_WIN_LEN_SAMPLES"
    | (stuck) "AUDIO_WIN_LEN_SAMPLES < length (audio_buffer st)"
    by linarith
  then show ?thesis
  proof cases
    case normal
    then show ?thesis by (rule feedAudioContent_append_normal)
  next
    case full
    have n: "feedAudioContent ext s (a @ b) = bind_r (feedAudioContent ext s a) (\<lambda>s. feedAudioContent ext s b)"
      if "window_step ext st = Some (Inr s)" for s
    proof (rule feedAudioContent_append_normal)
      from window_step_audio[OF that] full
      show "length (audio_buffer s) < AUDIO_WIN_LEN_SAMPLES"
        by (simp add: AUDIO_WIN_LEN_SAMPLES_def AUDIO_WIN_STEP_SAMPLES_def)
    qed
    show ?thesis
      using ne
      apply (simp add: feedAudioContent_full[OF full] bind_r_assoc)
      apply (rule bind_r_cong)
      apply (simp add: n)
      done
  next
    case stuck
    with ne show ?thesis by (simp add: feedAudioContent_stuck)
  qed
qed

subsection \<open>Chunking\<close>

lemma mock_setup: "DS_SetupStream mock_externals mock_model = Inr mock_stream"
  by (simp add: DS_SetupStream_def mock_externals_def mock_model_def mock_stream_def MFCC_FEATURES_def)

text \<open>C1: feeding a sequence in one call and feeding any partition of it into consecutive
  chunks, in order, give the same result: the same state in every field (the session
  included), the same abort, or both do not return. An equal call of \<open>finishStream\<close>
  afterwards therefore gives the same logits and transcript.\<close>

theorem chunking_invariance:
  "feed_chunks ext st chunks = feedAudioContent ext st (concat chunks) \<and>
   bind_r (feed_chunks ext st chunks) (finishStream ext)
     = bind_r (feedAudioContent ext st (concat chunks)) (finishStream ext)"
proof -
  have "feed_chunks ext st chunks = feedAudioContent ext st (concat chunks)"
  proof (induction chunks arbitrary: st)
    case Nil
    show ?case by simp
  next
    case (Cons c cs)
    show ?case
      by (simp add: DS_FeedAudioContent_def feedAudioContent_append Cons.IH)
  qed
  then show ?thesis by simp
qed

lemma window_step_last_sample:
  assumes "window_step ext st = Some (Inr s)"
  shows "last_sample s = last_sample st"
proof -
  from assms obtain st2 where p: "processAudioWindow ext st (audio_buffer st) = Some (Inr st2)"
    and s: "s = st2\<lparr>audio_buffer := drop AUDIO_WIN_STEP_SAMPLES (audio_buffer st2)\<rparr>"
    by (auto simp: window_step_def bind_r_def split: option.splits sum.splits)
  from processAudioWindow_frame[OF p] s show ?thesis by simp
qed

lemma feedAudioContent_single_last_sample:
  assumes "feedAudioContent ext st [x] = Some (Inr st')"
  shows "last_sample st' = f_of_short ext x"
proof -
  have nrm: "last_sample s' = f_of_short ext x"
    if "length (audio_buffer s) < AUDIO_WIN_LEN_SAMPLES" "feedAudioContent ext s [x] = Some (Inr s')" for s s'
  proof (cases "length (audio_buffer (push_sample ext x s)) = AUDIO_WIN_LEN_SAMPLES")
    case True
    with that have "window_step ext (push_sample ext x s) = Some (Inr s')"
      by (simp add: feedAudioContent_sample)
    from window_step_last_sample[OF this] show ?thesis by (simp add: push_sample_def)
  next
    case False
    with that show ?thesis by (auto simp: feedAudioContent_sample push_sample_def)
  qed
  consider (normal) "length (audio_buffer st) < AUDIO_WIN_LEN_SAMPLES"
    | (full) "length (audio_buffer st) = AUDIO_WIN_LEN_SAMPLES"
    | (stuck) "AUDIO_WIN_LEN_SAMPLES < length (audio_buffer st)"
    by linarith
  then show ?thesis
  proof cases
    case normal
    from nrm[OF this assms] show ?thesis .
  next
    case full
    with assms obtain s where w: "window_step ext st = Some (Inr s)"
      and f: "feedAudioContent ext s [x] = Some (Inr st')"
      by (auto simp: feedAudioContent_full bind_r_def split: option.splits sum.splits)
    from window_step_audio[OF w] full have "length (audio_buffer s) < AUDIO_WIN_LEN_SAMPLES"
      by (simp add: AUDIO_WIN_LEN_SAMPLES_def AUDIO_WIN_STEP_SAMPLES_def)
    from nrm[OF this f] show ?thesis .
  next
    case stuck
    with assms show ?thesis by (simp add: feedAudioContent_stuck)
  qed
qed

subsection \<open>Well-formed models and the pipeline as total functions\<close>

lemma wf_model_session [simp]: "wf_model (m\<lparr>session := s\<rparr>) = wf_model m"
  by (simp add: wf_model_def)

lemma wf_modelD:
  assumes "wf_model m"
  shows "unat (mfcc_feats_per_timestep m) = MFCC_FEATURES * (2 * unat (n_context m) + 1)"
    and "0 < unat (n_steps m)"
    and "unat (n_steps m) * unat (mfcc_feats_per_timestep m) < 2 ^ 32"
    and "unat (n_steps m) * unat (mfcc_feats_per_timestep m) < 2 ^ 31"
    and "unat (n_steps m) * (alphabet_size m + 1) < 2 ^ 31"
proof -
  from assms show "unat (mfcc_feats_per_timestep m) = MFCC_FEATURES * (2 * unat (n_context m) + 1)"
    and "0 < unat (n_steps m)"
    and b: "unat (n_steps m) * unat (mfcc_feats_per_timestep m) < 2 ^ 31"
    and "unat (n_steps m) * (alphabet_size m + 1) < 2 ^ 31"
    unfolding wf_model_def by blast+
  from b show "unat (n_steps m) * unat (mfcc_feats_per_timestep m) < 2 ^ 32" by simp
qed

lemma wf_feats_pos: "wf_model m \<Longrightarrow> MFCC_FEATURES \<le> unat (mfcc_feats_per_timestep m)"
  by (simp add: wf_model_def)

lemma wf_unat_cap:
  assumes "wf_model m"
  shows "unat (n_steps m * mfcc_feats_per_timestep m) = unat (n_steps m) * unat (mfcc_feats_per_timestep m)"
proof -
  have "unat (n_steps m) * unat (mfcc_feats_per_timestep m) < 2 ^ LENGTH(32)"
    using wf_modelD(3)[OF assms] by simp
  then show ?thesis by (simp only: unat_mult_lem)
qed

lemma wf_unat_frames:
  assumes "wf_model m" "unat n \<le> unat (n_steps m)"
  shows "unat (n * mfcc_feats_per_timestep m) = unat n * unat (mfcc_feats_per_timestep m)"
proof -
  have "unat n * unat (mfcc_feats_per_timestep m) \<le> unat (n_steps m) * unat (mfcc_feats_per_timestep m)"
    using assms(2) by simp
  also have "\<dots> < 2 ^ LENGTH(32)" using wf_modelD(3)[OF assms(1)] by simp
  finally show ?thesis by (simp only: unat_mult_lem)
qed

lemma wf_unat_context:
  assumes "wf_model m"
  shows "unat (2 * n_context m + 1) = 2 * unat (n_context m) + 1"
    and "unat (word_of_nat MFCC_FEATURES * n_context m) = MFCC_FEATURES * unat (n_context m)"
    and "unat (n_context m) < 2 ^ 31"
proof -
  have F: "MFCC_FEATURES * (2 * unat (n_context m) + 1) < 2 ^ 32"
    using assms unsigned_less[of "mfcc_feats_per_timestep m", where 'a = nat]
    by (simp add: wf_model_def)
  then have b: "unat (n_context m) < 2 ^ 31" by (simp add: MFCC_FEATURES_def)
  then show "unat (n_context m) < 2 ^ 31" .
  have "2 * unat (n_context m) + 1 < 2 ^ 32" using b by simp
  then show "unat (2 * n_context m + 1) = 2 * unat (n_context m) + 1"
    by (simp add: unat_word_ariths)
  have "26 * unat (n_context m) < 2 ^ 32" using F by (simp add: MFCC_FEATURES_def)
  then show "unat (word_of_nat MFCC_FEATURES * n_context m) = MFCC_FEATURES * unat (n_context m)"
    by (simp add: unat_word_ariths MFCC_FEATURES_def)
qed

lemma infer_ok:
  assumes "wf_model m" "unat n \<le> unat (n_steps m)"
    and "unat n * unat (mfcc_feats_per_timestep m) \<le> length buf"
  shows "infer ext m buf n lo =
     (case session_run ext (session m)
             (take (unat n * unat (mfcc_feats_per_timestep m)) buf @
              replicate ((unat (n_steps m) - unat n) * unat (mfcc_feats_per_timestep m)) (f_zero ext)) n of
        (s', None) \<Rightarrow> Inr (m\<lparr>session := s'\<rparr>, lo)
      | (s', Some logits_mapped) \<Rightarrow>
          Inr (m\<lparr>session := s'\<rparr>, lo @ map logits_mapped [0..<unat n * (alphabet_size m + 1)]))"
proof -
  let ?F = "unat (mfcc_feats_per_timestep m)"
  have ts: "BATCH_SIZE * unat (n_steps m) * unat (2 * n_context m + 1) * MFCC_FEATURES = unat (n_steps m) * ?F"
    unfolding wf_modelD(1)[OF assms(1)] wf_unat_context(1)[OF assms(1)] BATCH_SIZE_def
    by (simp add: algebra_simps)
  have le: "unat n * ?F \<le> unat (n_steps m) * ?F" using assms(2) by simp
  have d: "unat (n_steps m) * ?F - unat n * ?F = (unat (n_steps m) - unat n) * ?F"
    by (simp add: diff_mult_distrib)
  have mx: "max (unat n * ?F) (unat (n_steps m) * ?F) = unat (n_steps m) * ?F"
    using le by simp
  have i1: "\<not> (2 :: nat) ^ 31 \<le> unat (n_steps m) * ?F"
    using wf_modelD(4)[OF assms(1)] by simp
  have "unat n * (alphabet_size m + 1) \<le> unat (n_steps m) * (alphabet_size m + 1)"
    using assms(2) by (rule mult_le_mono1)
  then have i2: "\<not> (2 :: nat) ^ 31 \<le> unat n * BATCH_SIZE * (alphabet_size m + 1)"
    using wf_modelD(5)[OF assms(1)] by (simp add: BATCH_SIZE_def)
  show ?thesis
    unfolding infer_def Let_def wf_unat_cap[OF assms(1)] wf_unat_frames[OF assms(1,2)] ts d mx
    using assms(3) i1 i2 by (simp add: BATCH_SIZE_def not_less split: prod.splits option.splits)
qed

lemma processBatch_ok:
  assumes "wf_model (model st)" "unat n \<le> unat (n_steps (model st))"
    and "unat n * unat (mfcc_feats_per_timestep (model st)) \<le> length buf"
  shows "processBatch ext st buf n = Inr (run_batch ext st buf n)"
  unfolding processBatch_def infer_ok[OF assms] run_batch_def
  by (simp split: prod.splits option.splits)

lemma run_batch_frame [simp]:
  "audio_buffer (run_batch ext st buf n) = audio_buffer st"
  "last_sample (run_batch ext st buf n) = last_sample st"
  "mfcc_buffer (run_batch ext st buf n) = mfcc_buffer st"
  "batch_buffer (run_batch ext st buf n) = batch_buffer st"
  "skip_next_mfcc (run_batch ext st buf n) = skip_next_mfcc st"
  "config (model (run_batch ext st buf n)) = config (model st)"
  "wf_model (model (run_batch ext st buf n)) = wf_model (model st)"
  "mfcc_feats_per_timestep (model (run_batch ext st buf n)) = mfcc_feats_per_timestep (model st)"
  "n_steps (model (run_batch ext st buf n)) = n_steps (model st)"
  "n_context (model (run_batch ext st buf n)) = n_context (model st)"
  "alphabet_size (model (run_batch ext st buf n)) = alphabet_size (model st)"
  "beam_width (model (run_batch ext st buf n)) = beam_width (model st)"
  by (simp_all add: run_batch_def config_def split: prod.splits)

lemma emit_timestep_frame [simp]:
  "audio_buffer (emit_timestep ext st buf) = audio_buffer st"
  "last_sample (emit_timestep ext st buf) = last_sample st"
  "mfcc_buffer (emit_timestep ext st buf) = mfcc_buffer st"
  "skip_next_mfcc (emit_timestep ext st buf) = skip_next_mfcc st"
  "config (model (emit_timestep ext st buf)) = config (model st)"
  "wf_model (model (emit_timestep ext st buf)) = wf_model (model st)"
  "mfcc_feats_per_timestep (model (emit_timestep ext st buf)) = mfcc_feats_per_timestep (model st)"
  "n_steps (model (emit_timestep ext st buf)) = n_steps (model st)"
  "n_context (model (emit_timestep ext st buf)) = n_context (model st)"
  "alphabet_size (model (emit_timestep ext st buf)) = alphabet_size (model st)"
  "beam_width (model (emit_timestep ext st buf)) = beam_width (model st)"
  by (simp_all add: emit_timestep_def)

lemma push_vector_frame [simp]:
  "audio_buffer (push_vector ext st v) = audio_buffer st"
  "last_sample (push_vector ext st v) = last_sample st"
  "skip_next_mfcc (push_vector ext st v) = skip_next_mfcc st"
  "config (model (push_vector ext st v)) = config (model st)"
  "wf_model (model (push_vector ext st v)) = wf_model (model st)"
  "mfcc_feats_per_timestep (model (push_vector ext st v)) = mfcc_feats_per_timestep (model st)"
  "n_steps (model (push_vector ext st v)) = n_steps (model st)"
  "n_context (model (push_vector ext st v)) = n_context (model st)"
  "alphabet_size (model (push_vector ext st v)) = alphabet_size (model st)"
  "beam_width (model (push_vector ext st v)) = beam_width (model st)"
  by (simp_all add: push_vector_def)

lemma processMfccWindow_Nil [simp]: "processMfccWindow ext st [] = Some (Inr st)"
  by (simp add: processMfccWindow.simps)

lemma dvd_less_step:
  assumes "(d::nat) dvd a" "d dvd b" "a < b"
  shows "a + d \<le> b"
proof -
  from assms obtain i j where "a = d * i" "b = d * j" by (auto simp: dvd_def)
  with assms(3) have "i < j" by simp
  then have "d * (i + 1) \<le> d * j" by (intro mult_le_mono2) simp
  then show ?thesis using \<open>a = d * i\<close> \<open>b = d * j\<close> by simp
qed

lemma processMfccWindow_ok:
  assumes wf: "wf_model (model st)"
    and bb: "length (batch_buffer st) + unat (mfcc_feats_per_timestep (model st))
               \<le> unat (n_steps (model st)) * unat (mfcc_feats_per_timestep (model st))"
    and "length buf = unat (mfcc_feats_per_timestep (model st))"
  shows "processMfccWindow ext st buf = Some (Inr (emit_timestep ext st buf))"
proof -
  let ?F = "unat (mfcc_feats_per_timestep (model st))"
  let ?cap = "unat (n_steps (model st)) * ?F"
  have Fpos: "0 < ?F" using wf_feats_pos[OF wf] by (simp add: MFCC_FEATURES_def)
  then have ne: "buf \<noteq> []" using assms(3) by auto
  have cap: "unat (n_steps (model st) * mfcc_feats_per_timestep (model st)) = ?cap"
    by (rule wf_unat_cap[OF wf])
  have "length (batch_buffer st) \<le> unat (n_steps (model st) * mfcc_feats_per_timestep (model st))"
    using bb cap by simp
  from unat_gap[OF this]
  have gap: "unat (n_steps (model st) * mfcc_feats_per_timestep (model st) - word_of_nat (length (batch_buffer st)))
               = ?cap - length (batch_buffer st)"
    by (simp add: cap)
  have wl: "unat (word_of_nat (length buf) :: 32 word) = ?F"
    by (simp add: assms(3))
  have n: "unat (min (word_of_nat (length buf) :: 32 word)
             (n_steps (model st) * mfcc_feats_per_timestep (model st) - word_of_nat (length (batch_buffer st)))) = ?F"
    using bb by (simp add: min_def word_le_nat_alt wl gap)
  show ?thesis
  proof (cases "length (batch_buffer st) + ?F = ?cap")
    case True
    have pb: "processBatch ext (st\<lparr>batch_buffer := batch_buffer st @ buf\<rparr>) (batch_buffer st @ buf) (n_steps (model st))
            = Inr (run_batch ext (st\<lparr>batch_buffer := batch_buffer st @ buf\<rparr>) (batch_buffer st @ buf) (n_steps (model st)))"
      by (rule processBatch_ok) (use wf True assms(3) in simp_all)
    show ?thesis
      apply (subst processMfccWindow.simps)
      unfolding Let_def n cap
      using ne True assms(3) by (simp add: pb emit_timestep_def)
  next
    case False
    show ?thesis
      apply (subst processMfccWindow.simps)
      unfolding Let_def n cap
      using ne False bb assms(3) by (simp add: emit_timestep_def)
  qed
qed

lemma pushMfccBuffer_vector:
  assumes "buffers_ok st" "length v = MFCC_FEATURES"
  shows "pushMfccBuffer ext st v = Some (Inr (push_vector ext st v))"
proof -
  let ?F = "unat (mfcc_feats_per_timestep (model st))"
  from assms(1) have wf: "wf_model (model st)" and mb: "length (mfcc_buffer st) + MFCC_FEATURES \<le> ?F"
    and bb: "length (batch_buffer st) + ?F \<le> unat (n_steps (model st)) * ?F"
    by (simp_all add: buffers_ok_def)
  have ne: "v \<noteq> []" using assms(2) by (auto simp: MFCC_FEATURES_def)
  show ?thesis
  proof (cases "length (mfcc_buffer st) + MFCC_FEATURES = ?F")
    case True
    let ?st1 = "st\<lparr>mfcc_buffer := mfcc_buffer st @ v\<rparr>"
    have pw: "processMfccWindow ext ?st1 (mfcc_buffer st @ v) = Some (Inr (emit_timestep ext ?st1 (mfcc_buffer st @ v)))"
      by (rule processMfccWindow_ok) (use wf bb True assms(2) in simp_all)
    have le: "length (mfcc_buffer st) \<le> ?F" using mb by simp
    have c: "?F - length (mfcc_buffer st) \<le> length v" using True assms(2) by simp
    have g: "MFCC_FEATURES = ?F - length (mfcc_buffer st)" using True by simp
    have t: "take MFCC_FEATURES v = v" "drop MFCC_FEATURES v = []" using assms(2) by simp_all
    show ?thesis
      unfolding pushMfccBuffer_full[OF ne le c g] t pw
      using True assms(2) by (simp add: push_vector_def)
  next
    case False
    with mb have "length (mfcc_buffer st) + length v < ?F" using assms(2) by simp
    from pushMfccBuffer_part[OF ne this] False assms(2) show ?thesis
      by (simp add: push_vector_def)
  qed
qed

lemma push_vector_buffers_ok:
  assumes "buffers_ok st" "length v = MFCC_FEATURES"
  shows "buffers_ok (push_vector ext st v)"
proof -
  let ?F = "unat (mfcc_feats_per_timestep (model st))"
  let ?cap = "unat (n_steps (model st)) * ?F"
  from assms(1) have wf: "wf_model (model st)"
    and mbd: "MFCC_FEATURES dvd length (mfcc_buffer st)"
    and mb: "length (mfcc_buffer st) + MFCC_FEATURES \<le> ?F"
    and bbd: "?F dvd length (batch_buffer st)"
    and bb: "length (batch_buffer st) + ?F \<le> ?cap"
    by (simp_all add: buffers_ok_def)
  have Fd: "MFCC_FEATURES dvd ?F" using wf_modelD(1)[OF wf] by simp
  have len: "length (drop MFCC_FEATURES (mfcc_buffer st @ v)) = length (mfcc_buffer st)"
    using assms(2) by (simp del: drop_append)
  have ns: "Suc 0 \<le> unat (n_steps (model st))" using wf_modelD(2)[OF wf] by simp
  show ?thesis
  proof (cases "length (mfcc_buffer st) + MFCC_FEATURES = ?F")
    case False
    have "length (mfcc_buffer st) + MFCC_FEATURES + MFCC_FEATURES \<le> ?F"
      by (rule dvd_less_step) (use mbd Fd mb False in simp_all)
    then show ?thesis
      using False assms wf mbd bbd bb by (simp add: push_vector_def buffers_ok_def)
  next
    case True
    then have mb': "mfcc_buffer (push_vector ext st v) = drop MFCC_FEATURES (mfcc_buffer st @ v)"
      using assms(2) by (simp add: push_vector_def del: drop_append)
    have bb': "batch_buffer (push_vector ext st v) =
                 (if length (batch_buffer st) + ?F = ?cap then [] else batch_buffer st @ mfcc_buffer st @ v)"
      using True assms(2) by (simp add: push_vector_def emit_timestep_def del: drop_append)
    show ?thesis
    proof (cases "length (batch_buffer st) + ?F = ?cap")
      case full: True
      show ?thesis
        unfolding buffers_ok_def mb' bb' len
        using full wf mbd mb ns by simp
    next
      case False
      have "length (batch_buffer st) + ?F + ?F \<le> ?cap"
        by (rule dvd_less_step) (use bbd bb False in simp_all)
      moreover have "length (mfcc_buffer st @ v) = ?F" using True assms(2) by simp
      ultimately show ?thesis
        unfolding buffers_ok_def mb' bb' len
        using False wf mbd mb bbd by simp
    qed
  qed
qed

lemma buffers_ok_upd [simp]:
  "buffers_ok (st\<lparr>skip_next_mfcc := b\<rparr>) = buffers_ok st"
  "buffers_ok (st\<lparr>audio_buffer := a\<rparr>) = buffers_ok st"
  "buffers_ok (st\<lparr>last_sample := l\<rparr>) = buffers_ok st"
  "buffers_ok (st\<lparr>accumulated_logits := lo\<rparr>) = buffers_ok st"
  "buffers_ok (push_sample ext x st) = buffers_ok st"
  by (simp_all add: buffers_ok_def push_sample_def)

lemma unat_frames_one [simp]:
  "unat (word_of_int 1 * word_of_nat MFCC_FEATURES :: 32 word) = MFCC_FEATURES"
  "unat (word_of_nat MFCC_FEATURES :: 32 word) = MFCC_FEATURES"
  by (simp_all add: MFCC_FEATURES_def)

lemma processAudioWindow_ok:
  assumes "buffers_ok st"
  shows "processAudioWindow ext st buf = Some (process_window ext st buf)"
proof (cases "skip_next_mfcc st")
  case True
  then show ?thesis by (simp add: processAudioWindow_def process_window_def)
next
  case False
  obtain n mfcc where c: "csf_mfcc ext buf = (n, mfcc)" by (cases "csf_mfcc ext buf")
  show ?thesis
  proof (cases "n = 1")
    case ne: False
    with False c show ?thesis by (simp add: processAudioWindow_def process_window_def)
  next
    case True
    have "pushMfccBuffer ext (st\<lparr>skip_next_mfcc := True\<rparr>) (features ext buf)
            = Some (Inr (push_vector ext (st\<lparr>skip_next_mfcc := True\<rparr>) (features ext buf)))"
      by (rule pushMfccBuffer_vector) (use assms in \<open>simp_all add: features_def\<close>)
    with True False c show ?thesis
      by (simp add: processAudioWindow_def process_window_def features_def)
  qed
qed

lemma process_window_ok:
  assumes "buffers_ok st" "process_window ext st buf = Inr s"
  shows "buffers_ok s" "audio_buffer s = audio_buffer st" "last_sample s = last_sample st"
    "skip_next_mfcc s = (\<not> skip_next_mfcc st)" "config (model s) = config (model st)"
proof -
  have v: "length (features ext buf) = MFCC_FEATURES" by (simp add: features_def)
  have "buffers_ok (push_vector ext (st\<lparr>skip_next_mfcc := True\<rparr>) (features ext buf))"
    by (rule push_vector_buffers_ok) (use assms(1) v in simp_all)
  with assms show "buffers_ok s" "audio_buffer s = audio_buffer st" "last_sample s = last_sample st"
    "skip_next_mfcc s = (\<not> skip_next_mfcc st)" "config (model s) = config (model st)"
    by (auto simp: process_window_def config_def split: if_splits)
qed

lemma window_step_ok:
  assumes "buffers_ok st"
  shows "window_step ext st =
           (case process_window ext st (audio_buffer st) of
              Inl e \<Rightarrow> Some (Inl e)
            | Inr s \<Rightarrow> Some (Inr (s\<lparr>audio_buffer := drop AUDIO_WIN_STEP_SAMPLES (audio_buffer s)\<rparr>)))"
  by (simp add: window_step_def processAudioWindow_ok[OF assms] split: sum.splits)

lemma feed_total_correct:
  "buffers_ok st \<Longrightarrow> length (audio_buffer st) < AUDIO_WIN_LEN_SAMPLES \<Longrightarrow>
     feedAudioContent ext st xs = Some (feed_total ext st xs)"
proof (induction xs arbitrary: st)
  case Nil
  show ?case by simp
next
  case (Cons x xs)
  let ?st' = "push_sample ext x st"
  have ok': "buffers_ok ?st'" using Cons.prems(1) by simp
  show ?case
  proof (cases "length (audio_buffer ?st') = AUDIO_WIN_LEN_SAMPLES")
    case False
    with Cons.prems have "length (audio_buffer ?st') < AUDIO_WIN_LEN_SAMPLES"
      by (simp add: push_sample_def)
    from Cons.IH[OF ok' this] False Cons.prems(2) show ?thesis
      by (simp add: feedAudioContent_sample)
  next
    case True
    show ?thesis
    proof (cases "process_window ext ?st' (audio_buffer ?st')")
      case (Inl e)
      with True Cons.prems(2) show ?thesis
        by (simp add: feedAudioContent_sample window_step_ok[OF ok'])
    next
      case (Inr s)
      let ?s = "s\<lparr>audio_buffer := drop AUDIO_WIN_STEP_SAMPLES (audio_buffer s)\<rparr>"
      from process_window_ok[OF ok' Inr] True
      have "buffers_ok ?s" "length (audio_buffer ?s) < AUDIO_WIN_LEN_SAMPLES"
        by (simp_all add: AUDIO_WIN_LEN_SAMPLES_def AUDIO_WIN_STEP_SAMPLES_def)
      from Cons.IH[OF this] Inr True Cons.prems(2) show ?thesis
        by (simp add: feedAudioContent_sample window_step_ok[OF ok'])
    qed
  qed
qed

lemma feed_total_ok:
  "buffers_ok st \<Longrightarrow> length (audio_buffer st) < AUDIO_WIN_LEN_SAMPLES \<Longrightarrow>
   feed_total ext st xs = Inr st' \<Longrightarrow>
     buffers_ok st' \<and> length (audio_buffer st') < AUDIO_WIN_LEN_SAMPLES \<and>
     config (model st') = config (model st)"
proof (induction xs arbitrary: st)
  case Nil
  then show ?case by simp
next
  case (Cons x xs)
  let ?st' = "push_sample ext x st"
  have ok': "buffers_ok ?st'" using Cons.prems(1) by simp
  have cfg: "config (model ?st') = config (model st)" by (simp add: push_sample_def)
  show ?case
  proof (cases "length (audio_buffer ?st') = AUDIO_WIN_LEN_SAMPLES")
    case False
    with Cons.prems have "length (audio_buffer ?st') < AUDIO_WIN_LEN_SAMPLES"
      by (simp add: push_sample_def)
    from Cons.IH[OF ok' this] False Cons.prems(3) cfg show ?thesis by simp
  next
    case True
    with Cons.prems(3) obtain s where Inr: "process_window ext ?st' (audio_buffer ?st') = Inr s"
      and rest: "feed_total ext (s\<lparr>audio_buffer := drop AUDIO_WIN_STEP_SAMPLES (audio_buffer s)\<rparr>) xs = Inr st'"
      by (auto split: sum.splits)
    let ?s = "s\<lparr>audio_buffer := drop AUDIO_WIN_STEP_SAMPLES (audio_buffer s)\<rparr>"
    from process_window_ok[OF ok' Inr] True
    have "buffers_ok ?s" "length (audio_buffer ?s) < AUDIO_WIN_LEN_SAMPLES"
      and "config (model ?s) = config (model st)"
      by (simp_all add: AUDIO_WIN_LEN_SAMPLES_def AUDIO_WIN_STEP_SAMPLES_def cfg)
    with Cons.IH[OF this(1,2) rest] show ?thesis by simp
  qed
qed

lemma zero_vector_length [simp]: "length (zero_vector ext) = MFCC_FEATURES"
  by (simp add: zero_vector_def)

lemma push_zero_funpow_ok:
  "buffers_ok st \<Longrightarrow> buffers_ok (((\<lambda>s. push_vector ext s (zero_vector ext)) ^^ k) st)"
  by (induction k) (simp_all add: push_vector_buffers_ok)

lemma push_zero_funpow_frame [simp]:
  "config (model (((\<lambda>s. push_vector ext s (zero_vector ext)) ^^ k) st)) = config (model st)"
  "audio_buffer (((\<lambda>s. push_vector ext s (zero_vector ext)) ^^ k) st) = audio_buffer st"
  "last_sample (((\<lambda>s. push_vector ext s (zero_vector ext)) ^^ k) st) = last_sample st"
  "skip_next_mfcc (((\<lambda>s. push_vector ext s (zero_vector ext)) ^^ k) st) = skip_next_mfcc st"
  by (induction k) simp_all

lemma addZeroMfccWindows_ok:
  "buffers_ok st \<Longrightarrow>
     addZeroMfccWindows ext k st = Some (Inr (((\<lambda>s. push_vector ext s (zero_vector ext)) ^^ k) st))"
proof (induction k arbitrary: st)
  case 0
  show ?case by simp
next
  case (Suc k)
  have "addZeroMfccWindow ext st = Some (Inr (push_vector ext st (zero_vector ext)))"
    unfolding addZeroMfccWindow_def zero_vector_def[symmetric]
    by (rule pushMfccBuffer_vector) (use Suc.prems in simp_all)
  moreover have "buffers_ok (push_vector ext st (zero_vector ext))"
    by (rule push_vector_buffers_ok) (use Suc.prems in simp_all)
  moreover have "((\<lambda>s. push_vector ext s (zero_vector ext)) ^^ k) (push_vector ext st (zero_vector ext))
      = push_vector ext (((\<lambda>s. push_vector ext s (zero_vector ext)) ^^ k) st) (zero_vector ext)"
    using funpow_swap1[of "\<lambda>s. push_vector ext s (zero_vector ext)" k st] by simp
  ultimately show ?case
    by (simp add: Suc.IH)
qed

lemma flush_batch_ok:
  assumes "buffers_ok st" "batch_buffer st \<noteq> []"
  shows "mfcc_feats_per_timestep (model st) \<noteq> 0"
    and "processBatch ext st (batch_buffer st)
           (word_of_nat (length (batch_buffer st) div unat (mfcc_feats_per_timestep (model st))))
         = Inr (flush_batch ext st)"
proof -
  let ?F = "unat (mfcc_feats_per_timestep (model st))"
  let ?k = "length (batch_buffer st) div ?F"
  from assms(1) have wf: "wf_model (model st)"
    and bb: "length (batch_buffer st) + ?F \<le> unat (n_steps (model st)) * ?F"
    by (simp_all add: buffers_ok_def)
  have Fpos: "0 < ?F" using wf_feats_pos[OF wf] by (simp add: MFCC_FEATURES_def)
  then show "mfcc_feats_per_timestep (model st) \<noteq> 0" by (auto simp: unat_eq_0)
  have "?k * ?F \<le> length (batch_buffer st)" by simp
  with bb have "?k * ?F < unat (n_steps (model st)) * ?F" using Fpos by linarith
  then have k: "?k < unat (n_steps (model st))" by simp
  then have uk: "unat (word_of_nat ?k :: 32 word) = ?k"
    by (metis le_unat_uoi less_imp_le)
  have "processBatch ext st (batch_buffer st) (word_of_nat ?k) = Inr (run_batch ext st (batch_buffer st) (word_of_nat ?k))"
    by (rule processBatch_ok) (use wf k uk in simp_all)
  then show "processBatch ext st (batch_buffer st) (word_of_nat ?k) = Inr (flush_batch ext st)"
    using assms(2) by (simp add: flush_batch_def)
qed

lemma finishStream_ok:
  assumes "buffers_ok st"
  shows "finishStream ext st =
     Some (case finish_state ext st of
             Inl e \<Rightarrow> Inl e
           | Inr s3 \<Rightarrow>
               (case decode ext (model s3) (accumulated_logits s3) of
                  Inl e \<Rightarrow> Inl e
                | Inr str \<Rightarrow> Inr (s3, str)))"
proof (cases "process_window ext st (audio_buffer st)")
  case (Inl e)
  then show ?thesis
    by (simp add: finishStream_def finish_state_def processAudioWindow_ok[OF assms])
next
  case (Inr s1)
  from process_window_ok[OF assms Inr] have ok1: "buffers_ok s1" by simp
  then have wf1: "wf_model (model s1)" by (simp add: buffers_ok_def)
  let ?s2 = "((\<lambda>s. push_vector ext s (zero_vector ext)) ^^ unat (n_context (model s1))) s1"
  have ok2: "buffers_ok ?s2" by (rule push_zero_funpow_ok[OF ok1])
  have nc: "\<not> (2 :: nat) ^ 31 \<le> unat (n_context (model s1))"
    using wf_unat_context(3)[OF wf1] by simp
  show ?thesis
  proof (cases "batch_buffer ?s2 = []")
    case True
    then show ?thesis
      using Inr nc
      by (simp add: finishStream_def finish_state_def processAudioWindow_ok[OF assms]
            addZeroMfccWindows_ok[OF ok1] flush_batch_def split: sum.splits)
  next
    case False
    from flush_batch_ok[OF ok2 False] False Inr nc show ?thesis
      by (simp add: finishStream_def finish_state_def processAudioWindow_ok[OF assms]
            addZeroMfccWindows_ok[OF ok1] split: sum.splits)
  qed
qed

lemma DS_SetupStream_ok:
  assumes "wf_model m" "DS_SetupStream ext m = Inr st0"
  shows "buffers_ok st0" "audio_buffer st0 = []" "skip_next_mfcc st0 = False"
    "mfcc_buffer st0 = replicate (MFCC_FEATURES * unat (n_context m)) (f_zero ext)"
    "batch_buffer st0 = []" "accumulated_logits st0 = []" "last_sample st0 = f_zero ext"
    "config (model st0) = config m"
proof -
  from assms(2) obtain s' where st0: "st0 = \<lparr>accumulated_logits = [],
                    audio_buffer = [],
                    last_sample = f_zero ext,
                    mfcc_buffer = replicate (unat (word_of_nat MFCC_FEATURES * n_context m)) (f_zero ext),
                    batch_buffer = [],
                    skip_next_mfcc = False,
                    model = m\<lparr>session := s'\<rparr>\<rparr>"
    by (auto simp: DS_SetupStream_def split: prod.splits if_splits)
  note u = wf_unat_context(2)[OF assms(1)]
  show "audio_buffer st0 = []" "skip_next_mfcc st0 = False"
    "mfcc_buffer st0 = replicate (MFCC_FEATURES * unat (n_context m)) (f_zero ext)"
    "batch_buffer st0 = []" "accumulated_logits st0 = []" "last_sample st0 = f_zero ext"
    "config (model st0) = config m"
    by (simp_all add: st0 u config_def)
  show "buffers_ok st0"
    using wf_modelD[OF assms(1)] assms(1)
    by (simp add: st0 u buffers_ok_def)
qed

lemma wf_mock_model: "wf_model mock_model"
  by (simp add: wf_model_def mock_model_def MFCC_FEATURES_def)

lemma buffers_ok_mock_stream: "buffers_ok mock_stream"
  using wf_mock_model
  by (simp add: buffers_ok_def mock_stream_def mock_model_def MFCC_FEATURES_def)

lemma active_buffers_ok:
  assumes "wf_model m" "active ext m st"
  shows "buffers_ok st \<and> length (audio_buffer st) < AUDIO_WIN_LEN_SAMPLES \<and> config (model st) = config m"
  using assms(2)
proof (induction rule: active.induct)
  case (fresh st)
  from DS_SetupStream_ok[OF assms(1) fresh] show ?case
    by (simp add: AUDIO_WIN_LEN_SAMPLES_def)
next
  case (fed st xs st')
  note feed = fed
  then have ok: "buffers_ok st" and ab: "length (audio_buffer st) < AUDIO_WIN_LEN_SAMPLES"
    and cfg: "config (model st) = config m" by simp_all
  from feed(2) have "feed_total ext st xs = Inr st'"
    by (simp add: DS_FeedAudioContent_def feed_total_correct[OF ok ab])
  from feed_total_ok[OF ok ab this] cfg show ?case by simp
qed

lemma buffers_ok_run_batch [simp]: "buffers_ok (run_batch ext st buf n) = buffers_ok st"
  by (simp add: buffers_ok_def)

lemma flush_batch_frame [simp]:
  "buffers_ok (flush_batch ext st) = buffers_ok st"
  "audio_buffer (flush_batch ext st) = audio_buffer st"
  "last_sample (flush_batch ext st) = last_sample st"
  "mfcc_buffer (flush_batch ext st) = mfcc_buffer st"
  "batch_buffer (flush_batch ext st) = batch_buffer st"
  "skip_next_mfcc (flush_batch ext st) = skip_next_mfcc st"
  "config (model (flush_batch ext st)) = config (model st)"
  by (simp_all add: flush_batch_def)

lemma finish_state_ok:
  assumes "buffers_ok st" "finish_state ext st = Inr s3"
  shows "buffers_ok s3" "audio_buffer s3 = audio_buffer st" "config (model s3) = config (model st)"
proof -
  from assms(2) obtain s1 where s1: "process_window ext st (audio_buffer st) = Inr s1"
    and s3: "s3 = flush_batch ext (((\<lambda>s. push_vector ext s (zero_vector ext)) ^^ unat (n_context (model s1))) s1)"
    by (auto simp: finish_state_def split: sum.splits)
  note p = process_window_ok[OF assms(1) s1]
  let ?s2 = "((\<lambda>s. push_vector ext s (zero_vector ext)) ^^ unat (n_context (model s1))) s1"
  have ok2: "buffers_ok ?s2" by (rule push_zero_funpow_ok[OF p(1)])
  then show "buffers_ok s3"
    by (simp add: s3)
  show "audio_buffer s3 = audio_buffer st" "config (model s3) = config (model st)"
    using p by (simp_all add: s3)
qed

subsection \<open>The feature window\<close>

text \<open>C8: pushing one feature vector (\<open>MFCC_FEATURES\<close> values) into the feature window of
  a stream whose buffers have the sizes of an active stream. The vector is appended. If
  the window then holds fewer than \<open>mfcc_feats_per_timestep\<close> values, that is all. If it
  holds exactly that many, the whole window goes to \<open>processMfccWindow\<close> as one timestep,
  which appends it to the batch window (and runs and empties a full batch), and the
  feature window keeps all but its first \<open>MFCC_FEATURES\<close> elements, in order. No other
  case arises.\<close>

theorem feature_window_sliding:
  "buffers_ok st \<and> length v = MFCC_FEATURES \<longrightarrow>
     (length (mfcc_buffer st @ v) < unat (mfcc_feats_per_timestep (model st)) \<longrightarrow>
        pushMfccBuffer ext st v = Some (Inr (st\<lparr>mfcc_buffer := mfcc_buffer st @ v\<rparr>))) \<and>
     (length (mfcc_buffer st @ v) = unat (mfcc_feats_per_timestep (model st)) \<longrightarrow>
        pushMfccBuffer ext st v =
          bind_r (processMfccWindow ext (st\<lparr>mfcc_buffer := mfcc_buffer st @ v\<rparr>) (mfcc_buffer st @ v))
            (\<lambda>st2. Some (Inr (st2\<lparr>mfcc_buffer := drop MFCC_FEATURES (mfcc_buffer st @ v)\<rparr>))) \<and>
        (\<exists>st'. pushMfccBuffer ext st v = Some (Inr st') \<and>
               mfcc_buffer st' = drop MFCC_FEATURES (mfcc_buffer st @ v) \<and>
               length (mfcc_buffer st') = unat (mfcc_feats_per_timestep (model st)) - MFCC_FEATURES \<and>
               (batch_buffer st' = batch_buffer st @ mfcc_buffer st @ v \<or>
                batch_buffer st' = [] \<and>
                length (batch_buffer st @ mfcc_buffer st @ v)
                  = unat (n_steps (model st)) * unat (mfcc_feats_per_timestep (model st))))) \<and>
     (length (mfcc_buffer st @ v) < unat (mfcc_feats_per_timestep (model st)) \<or>
      length (mfcc_buffer st @ v) = unat (mfcc_feats_per_timestep (model st)))"
proof (intro impI, elim conjE)
  let ?F = "unat (mfcc_feats_per_timestep (model st))"
  let ?st1 = "st\<lparr>mfcc_buffer := mfcc_buffer st @ v\<rparr>"
  assume ok: "buffers_ok st" and v: "length v = MFCC_FEATURES"
  from ok have wf: "wf_model (model st)" and mb: "length (mfcc_buffer st) + MFCC_FEATURES \<le> ?F"
    and bb: "length (batch_buffer st) + ?F \<le> unat (n_steps (model st)) * ?F"
    by (simp_all add: buffers_ok_def)
  note pv = pushMfccBuffer_vector[OF ok v, of ext]
  have A: "pushMfccBuffer ext st v = Some (Inr ?st1)" if "length (mfcc_buffer st @ v) < ?F"
    using that pv by (simp add: push_vector_def)
  have B: "length (mfcc_buffer st @ v) < ?F \<or> length (mfcc_buffer st @ v) = ?F"
    using mb v by auto
  have C: "pushMfccBuffer ext st v =
          bind_r (processMfccWindow ext ?st1 (mfcc_buffer st @ v))
            (\<lambda>st2. Some (Inr (st2\<lparr>mfcc_buffer := drop MFCC_FEATURES (mfcc_buffer st @ v)\<rparr>))) \<and>
        (\<exists>st'. pushMfccBuffer ext st v = Some (Inr st') \<and>
               mfcc_buffer st' = drop MFCC_FEATURES (mfcc_buffer st @ v) \<and>
               length (mfcc_buffer st') = ?F - MFCC_FEATURES \<and>
               (batch_buffer st' = batch_buffer st @ mfcc_buffer st @ v \<or>
                batch_buffer st' = [] \<and>
                length (batch_buffer st @ mfcc_buffer st @ v) = unat (n_steps (model st)) * ?F))"
    if full: "length (mfcc_buffer st @ v) = ?F"
  proof -
    have pw: "processMfccWindow ext ?st1 (mfcc_buffer st @ v) = Some (Inr (emit_timestep ext ?st1 (mfcc_buffer st @ v)))"
      by (rule processMfccWindow_ok) (use wf bb full in simp_all)
    have pv': "pushMfccBuffer ext st v = Some (Inr ((emit_timestep ext ?st1 (mfcc_buffer st @ v))
             \<lparr>mfcc_buffer := drop MFCC_FEATURES (mfcc_buffer st @ v)\<rparr>))"
      using pv full by (simp add: push_vector_def)
    have len: "length (drop MFCC_FEATURES (mfcc_buffer st @ v)) = ?F - MFCC_FEATURES"
      using full by (simp del: drop_append)
    have bbr: "batch_buffer (emit_timestep ext ?st1 (mfcc_buffer st @ v)) = batch_buffer st @ mfcc_buffer st @ v \<or>
               batch_buffer (emit_timestep ext ?st1 (mfcc_buffer st @ v)) = [] \<and>
                length (batch_buffer st @ mfcc_buffer st @ v) = unat (n_steps (model st)) * ?F"
      by (simp add: emit_timestep_def)
    show ?thesis
      unfolding pw pv' using len bbr by (simp del: drop_append)
  qed
  from A B C show "(length (mfcc_buffer st @ v) < ?F \<longrightarrow>
        pushMfccBuffer ext st v = Some (Inr ?st1)) \<and>
     (length (mfcc_buffer st @ v) = ?F \<longrightarrow>
        pushMfccBuffer ext st v =
          bind_r (processMfccWindow ext ?st1 (mfcc_buffer st @ v))
            (\<lambda>st2. Some (Inr (st2\<lparr>mfcc_buffer := drop MFCC_FEATURES (mfcc_buffer st @ v)\<rparr>))) \<and>
        (\<exists>st'. pushMfccBuffer ext st v = Some (Inr st') \<and>
               mfcc_buffer st' = drop MFCC_FEATURES (mfcc_buffer st @ v) \<and>
               length (mfcc_buffer st') = ?F - MFCC_FEATURES \<and>
               (batch_buffer st' = batch_buffer st @ mfcc_buffer st @ v \<or>
                batch_buffer st' = [] \<and>
                length (batch_buffer st @ mfcc_buffer st @ v) = unat (n_steps (model st)) * ?F))) \<and>
     (length (mfcc_buffer st @ v) < ?F \<or> length (mfcc_buffer st @ v) = ?F)"
    by blast
qed

theorem feature_window_sliding_witness:
  "buffers_ok (mock_stream\<lparr>mfcc_buffer := replicate 52 0\<rparr>) \<and>
   length (replicate 26 (1 :: real)) = MFCC_FEATURES \<and>
   pushMfccBuffer mock_externals (mock_stream\<lparr>mfcc_buffer := replicate 52 0\<rparr>) (replicate 26 1) =
     bind_r (processMfccWindow mock_externals (mock_stream\<lparr>mfcc_buffer := replicate 52 0 @ replicate 26 1\<rparr>)
               (replicate 52 0 @ replicate 26 1))
       (\<lambda>st2. Some (Inr (st2\<lparr>mfcc_buffer := replicate 26 0 @ replicate 26 1\<rparr>)))"
proof -
  have h1: "buffers_ok (mock_stream\<lparr>mfcc_buffer := replicate 52 0\<rparr>)"
    using wf_mock_model
    by (simp add: buffers_ok_def mock_stream_def mock_model_def MFCC_FEATURES_def)
  have h2: "length (replicate 26 (1 :: real)) = MFCC_FEATURES" by (simp add: MFCC_FEATURES_def)
  have d: "drop MFCC_FEATURES (replicate 52 (0 :: real) @ replicate 26 1) = replicate 26 0 @ replicate 26 1"
    by (simp add: MFCC_FEATURES_def)
  have full: "length (mfcc_buffer (mock_stream\<lparr>mfcc_buffer := replicate 52 0\<rparr>) @ replicate 26 (1 :: real))
                = unat (mfcc_feats_per_timestep (model (mock_stream\<lparr>mfcc_buffer := replicate 52 0\<rparr>)))"
    by (simp add: mock_stream_def mock_model_def)
  note T = feature_window_sliding[of "mock_stream\<lparr>mfcc_buffer := replicate 52 0\<rparr>" "replicate 26 1" mock_externals,
      THEN mp, OF conjI[OF h1 h2]]
  note eq = T[THEN conjunct2, THEN conjunct1, THEN mp, OF full, THEN conjunct1]
  show ?thesis
  proof (intro conjI)
    show "buffers_ok (mock_stream\<lparr>mfcc_buffer := replicate 52 0\<rparr>)" by (rule h1)
    show "length (replicate 26 (1 :: real)) = MFCC_FEATURES" by (rule h2)
    show "pushMfccBuffer mock_externals (mock_stream\<lparr>mfcc_buffer := replicate 52 0\<rparr>) (replicate 26 1) =
     bind_r (processMfccWindow mock_externals (mock_stream\<lparr>mfcc_buffer := replicate 52 0 @ replicate 26 1\<rparr>)
               (replicate 52 0 @ replicate 26 1))
       (\<lambda>st2. Some (Inr (st2\<lparr>mfcc_buffer := replicate 26 0 @ replicate 26 1\<rparr>)))"
      using eq unfolding d[symmetric] by simp
  qed
qed

subsection \<open>Buffer sizes\<close>

lemma buffers_ok_sizes: "buffers_ok st \<Longrightarrow> buffer_sizes_ok st"
  by (simp add: buffers_ok_def buffer_sizes_ok_def)

text \<open>C7: for a well-formed model, stream setup leaves \<open>MFCC_FEATURES * n_context\<close> zeros
  in \<open>mfcc_buffer\<close> and every other buffer empty; every state of an active stream (set
  up, then fed any number of times) and the state \<open>finishStream\<close> leaves have
  \<open>length mfcc_buffer\<close> a multiple of \<open>MFCC_FEATURES\<close> and at most
  \<open>mfcc_feats_per_timestep\<close>, and \<open>length batch_buffer\<close> a multiple of
  \<open>mfcc_feats_per_timestep\<close> and at most \<open>n_steps * mfcc_feats_per_timestep\<close>. Feeding
  and finishing an active stream always come back (with a state or a failed assertion).\<close>

theorem buffer_size_invariants:
  "wf_model m \<longrightarrow>
     (DS_SetupStream ext m = Inr st0 \<longrightarrow>
        mfcc_buffer st0 = replicate (MFCC_FEATURES * unat (n_context m)) (f_zero ext) \<and>
        audio_buffer st0 = [] \<and> batch_buffer st0 = [] \<and> accumulated_logits st0 = []) \<and>
     (active ext m st \<longrightarrow>
        buffer_sizes_ok st \<and>
        unat (mfcc_feats_per_timestep (model st)) = MFCC_FEATURES * (2 * unat (n_context (model st)) + 1) \<and>
        (\<exists>r. DS_FeedAudioContent ext st xs = Some r) \<and>
        (\<exists>r. finishStream ext st = Some r) \<and>
        (\<forall>st' str. finishStream ext st = Some (Inr (st', str)) \<longrightarrow> buffer_sizes_ok st'))"
proof (intro impI conjI)
  assume wf: "wf_model m"
  {
    assume "DS_SetupStream ext m = Inr st0"
    note s = DS_SetupStream_ok[OF wf this]
    show "mfcc_buffer st0 = replicate (MFCC_FEATURES * unat (n_context m)) (f_zero ext)"
      "audio_buffer st0 = []" "batch_buffer st0 = []" "accumulated_logits st0 = []"
      by (rule s)+
  }
  assume "active ext m st"
  from active_buffers_ok[OF wf this]
  have ok: "buffers_ok st" and ab: "length (audio_buffer st) < AUDIO_WIN_LEN_SAMPLES"
    by simp_all
  show "buffer_sizes_ok st" by (rule buffers_ok_sizes[OF ok])
  from ok have "wf_model (model st)" by (simp add: buffers_ok_def)
  then show "unat (mfcc_feats_per_timestep (model st)) = MFCC_FEATURES * (2 * unat (n_context (model st)) + 1)"
    by (rule wf_modelD(1))
  show "\<exists>r. DS_FeedAudioContent ext st xs = Some r"
    by (simp add: DS_FeedAudioContent_def feed_total_correct[OF ok ab])
  show "\<exists>r. finishStream ext st = Some r"
    by (simp add: finishStream_ok[OF ok])
  show "\<forall>st' str. finishStream ext st = Some (Inr (st', str)) \<longrightarrow> buffer_sizes_ok st'"
  proof (intro allI impI)
    fix st' str
    assume "finishStream ext st = Some (Inr (st', str))"
    then have "finish_state ext st = Inr st'"
      by (auto simp: finishStream_ok[OF ok] split: sum.splits)
    from finish_state_ok(1)[OF ok this] show "buffer_sizes_ok st'"
      by (rule buffers_ok_sizes)
  qed
qed

theorem buffer_size_invariants_witness:
  "wf_model mock_model \<and> DS_SetupStream mock_externals mock_model = Inr mock_stream \<and>
   active mock_externals mock_model mock_stream \<and>
   mfcc_buffer mock_stream = replicate (MFCC_FEATURES * unat (n_context mock_model)) (f_zero mock_externals) \<and>
   buffer_sizes_ok mock_stream"
proof -
  have a: "active mock_externals mock_model mock_stream"
    by (rule active.fresh) (rule mock_setup)
  note T = buffer_size_invariants[of mock_model mock_externals mock_stream mock_stream "[]", THEN mp, OF wf_mock_model]
  from T[THEN conjunct1, THEN mp, OF mock_setup] T[THEN conjunct2, THEN mp, OF a]
    wf_mock_model mock_setup a
  show ?thesis by blast
qed

subsection \<open>Finishing a stream\<close>

lemma addZeroMfccWindows_funpow:
  "addZeroMfccWindows ext k st =
     ((\<lambda>r. bind_r r (\<lambda>s. pushMfccBuffer ext s (replicate MFCC_FEATURES (f_zero ext)))) ^^ k) (Some (Inr st))"
proof -
  let ?g = "\<lambda>r. bind_r r (\<lambda>s. pushMfccBuffer ext s (replicate MFCC_FEATURES (f_zero ext)))"
  have dist: "(?g ^^ k) r = bind_r r (\<lambda>s. (?g ^^ k) (Some (Inr s)))" for k r
  proof (induction k)
    case 0
    show ?case by simp
  next
    case (Suc k)
    have "(?g ^^ Suc k) r = ?g ((?g ^^ k) r)" by simp
    also have "\<dots> = ?g (bind_r r (\<lambda>s. (?g ^^ k) (Some (Inr s))))" using Suc by simp
    also have "\<dots> = bind_r r (\<lambda>s. ?g ((?g ^^ k) (Some (Inr s))))" by (simp add: bind_r_assoc)
    finally show ?case by simp
  qed
  show ?thesis
  proof (induction k arbitrary: st)
    case 0
    show ?case by simp
  next
    case (Suc k)
    have "addZeroMfccWindows ext (Suc k) st
            = bind_r (pushMfccBuffer ext st (replicate MFCC_FEATURES (f_zero ext))) (\<lambda>s. (?g ^^ k) (Some (Inr s)))"
      by (simp add: addZeroMfccWindow_def) (rule bind_r_cong, rule Suc)
    also have "\<dots> = (?g ^^ k) (?g (Some (Inr st)))"
      using dist[of k "?g (Some (Inr st))"] by simp
    also have "\<dots> = (?g ^^ Suc k) (Some (Inr st))"
      using funpow_swap1[of ?g k "Some (Inr st)"] by simp
    finally show ?case .
  qed
qed

lemma addZeroMfccWindows_concat:
  "addZeroMfccWindows ext k st = pushMfccBuffer ext st (replicate (k * MFCC_FEATURES) (f_zero ext))"
proof (induction k arbitrary: st)
  case 0
  show ?case by simp
next
  case (Suc k)
  have r: "replicate (Suc k * MFCC_FEATURES) (f_zero ext)
          = replicate MFCC_FEATURES (f_zero ext) @ replicate (k * MFCC_FEATURES) (f_zero ext)"
    by (simp add: replicate_add)
  have "bind_r (pushMfccBuffer ext st (replicate MFCC_FEATURES (f_zero ext))) (addZeroMfccWindows ext k)
      = bind_r (pushMfccBuffer ext st (replicate MFCC_FEATURES (f_zero ext)))
          (\<lambda>s. pushMfccBuffer ext s (replicate (k * MFCC_FEATURES) (f_zero ext)))"
    by (rule bind_r_cong) (rule Suc)
  then show ?case
    unfolding r pushMfccBuffer_append by (simp add: addZeroMfccWindow_def)
qed

lemma processAudioWindow_n_context:
  "processAudioWindow ext st buf = Some (Inr st1) \<Longrightarrow> n_context (model st1) = n_context (model st)"
  using processAudioWindow_frame[of ext st buf st1] by (simp add: config_def)

lemma extractor_ok_mock: "extractor_ok mock_externals" "extractor_ok failing_externals"
  by (simp_all add: extractor_ok_def mock_externals_def failing_externals_def)

lemma feed_total_Inr:
  "extractor_ok ext \<Longrightarrow> \<exists>st'. feed_total ext st xs = Inr st'"
proof (induction xs arbitrary: st)
  case Nil
  show ?case by simp
next
  case (Cons x xs)
  have "\<exists>s. process_window ext (push_sample ext x st) (audio_buffer (push_sample ext x st)) = Inr s"
    using Cons.prems by (simp add: process_window_def extractor_ok_def)
  then obtain s where "process_window ext (push_sample ext x st) (audio_buffer (push_sample ext x st)) = Inr s" ..
  with Cons.IH[OF Cons.prems] show ?case by simp
qed

lemma finish_state_Inr:
  "extractor_ok ext \<Longrightarrow> \<exists>s3. finish_state ext st = Inr s3"
  by (simp add: finish_state_def process_window_def extractor_ok_def)

lemma decode_config: "config m' = config m \<Longrightarrow> decode ext m' lo = decode ext m lo"
  by (simp add: decode_def config_def Let_def)

lemma wf_num_classes: "wf_model m \<Longrightarrow> alphabet_size m + 1 < 2 ^ 31"
proof -
  assume wf: "wf_model m"
  have "1 * (alphabet_size m + 1) \<le> unat (n_steps m) * (alphabet_size m + 1)"
    using wf_modelD(2)[OF wf] by (intro mult_le_mono1) simp
  with wf_modelD(5)[OF wf] show ?thesis by simp
qed

lemma decode_returns:
  assumes "alphabet_size m + 1 < 2 ^ 31"
    and "\<forall>inputs c w. ctc_beam_search_decoder ext inputs c w \<noteq> []"
    and "length lo div (BATCH_SIZE * (alphabet_size m + 1)) < 2 ^ 31"
  shows "\<exists>str. decode ext m lo = Inr str"
proof -
  let ?inputs = "map (\<lambda>t. map (\<lambda>i. lo ! (t * (alphabet_size m + 1) + i)) [0..<alphabet_size m + 1])
                   [0..<length lo div (BATCH_SIZE * (alphabet_size m + 1))]"
  from assms(2) obtain tokens rest
    where "ctc_beam_search_decoder ext ?inputs (alphabet_size m + 1) (beam_width m) = tokens # rest"
    by (meson list.exhaust)
  with assms(1,3) show ?thesis
    unfolding decode_def Let_def by (simp add: not_le)
qed

lemma finishStream_returns:
  assumes "buffers_ok st" "extractor_ok ext"
    and "\<forall>inputs c w. ctc_beam_search_decoder ext inputs c w \<noteq> []"
  shows "\<exists>st'. finish_state ext st = Inr st' \<and>
           finishStream ext st =
             (case decode ext (model st) (accumulated_logits st') of
                Inl e \<Rightarrow> Some (Inl e)
              | Inr str \<Rightarrow> Some (Inr (st', str))) \<and>
           (length (accumulated_logits st') div (BATCH_SIZE * (alphabet_size (model st) + 1)) < 2 ^ 31 \<longrightarrow>
              (\<exists>str. decode ext (model st) (accumulated_logits st') = Inr str))"
proof -
  from finish_state_Inr[OF assms(2)] obtain s3 where s3: "finish_state ext st = Inr s3" by blast
  note f = finish_state_ok[OF assms(1) s3]
  from assms(1) have wf: "wf_model (model st)" by (simp add: buffers_ok_def)
  have "finishStream ext st =
             (case decode ext (model st) (accumulated_logits s3) of
                Inl e \<Rightarrow> Some (Inl e)
              | Inr str \<Rightarrow> Some (Inr (s3, str)))"
    by (simp add: finishStream_ok[OF assms(1)] s3 decode_config[OF f(3)] split: sum.splits)
  moreover have "length (accumulated_logits s3) div (BATCH_SIZE * (alphabet_size (model st) + 1)) < 2 ^ 31 \<longrightarrow>
              (\<exists>str. decode ext (model st) (accumulated_logits s3) = Inr str)"
    using decode_returns[OF wf_num_classes[OF wf] assms(3)] by blast
  ultimately show ?thesis using s3 by blast
qed

lemma finish_case_eq:
  "(case d of Inl e \<Rightarrow> Some (Inl e) | Inr str \<Rightarrow> Some (Inr (st2, str))) = Some (Inr (st', str'))
     \<Longrightarrow> st' = st2"
  by (cases d) simp_all

lemma decoder_mock [simp]: "ctc_beam_search_decoder mock_externals inputs c w \<noteq> []"
  by (simp add: mock_externals_def)

lemma mock_fed_active:
  "feedAudioContent mock_externals mock_stream xs = Some (Inr st1) \<Longrightarrow>
     active mock_externals mock_model st1"
  by (rule active.fed[OF active.fresh[OF mock_setup]]) (simp add: DS_FeedAudioContent_def)

subsection \<open>Raw windows and the decimation toggle\<close>

lemma nwin_small: "n < 400 \<Longrightarrow> nwin n = 0"
  by (simp add: nwin_def AUDIO_WIN_LEN_SAMPLES_def)

lemma nwin_step: "nwin (400 + k) = Suc (nwin (240 + k))"
proof (cases "k < 160")
  case True
  then show ?thesis
    by (simp add: nwin_def AUDIO_WIN_LEN_SAMPLES_def AUDIO_WIN_STEP_SAMPLES_def)
next
  case False
  then obtain k' where k: "k = 160 + k'" by (metis le_add_diff_inverse not_less)
  show ?thesis
    unfolding k nwin_def AUDIO_WIN_LEN_SAMPLES_def AUDIO_WIN_STEP_SAMPLES_def
    by simp
qed


lemma window_step_skip:
  assumes "window_step ext st = Some (Inr s)"
  shows "skip_next_mfcc s = (\<not> skip_next_mfcc st)"
proof -
  from assms obtain st2 where p: "processAudioWindow ext st (audio_buffer st) = Some (Inr st2)"
    and s: "s = st2\<lparr>audio_buffer := drop AUDIO_WIN_STEP_SAMPLES (audio_buffer st2)\<rparr>"
    by (auto simp: window_step_def bind_r_def split: option.splits sum.splits)
  from processAudioWindow_frame[OF p] s show ?thesis by simp
qed




lemma preemphasis_length [simp]: "length (preemphasis ext l xs) = length xs"
  by (induction xs arbitrary: l) simp_all

lemma fill_Nil [simp]: "fill ext st [] = st"
  by (simp add: fill_def)

lemma fill_Cons: "fill ext st (x # xs) = fill ext (push_sample ext x st) xs"
  by (simp add: fill_def push_sample_def)

lemma fill_frame [simp]:
  "length (audio_buffer (fill ext st xs)) = length (audio_buffer st) + length xs"
  "mfcc_buffer (fill ext st xs) = mfcc_buffer st"
  "batch_buffer (fill ext st xs) = batch_buffer st"
  "accumulated_logits (fill ext st xs) = accumulated_logits st"
  "skip_next_mfcc (fill ext st xs) = skip_next_mfcc st"
  "model (fill ext st xs) = model st"
  "buffers_ok (fill ext st xs) = buffers_ok st"
  by (simp_all add: fill_def buffers_ok_def)

lemma feedAudioContent_fill:
  "length (audio_buffer st) + length xs < AUDIO_WIN_LEN_SAMPLES \<Longrightarrow>
     feedAudioContent ext st xs = Some (Inr (fill ext st xs))"
proof (induction xs arbitrary: st)
  case Nil
  show ?case by simp
next
  case (Cons x xs)
  have 1: "length (audio_buffer st) < AUDIO_WIN_LEN_SAMPLES" using Cons.prems by simp
  have 2: "length (audio_buffer (push_sample ext x st)) + length xs < AUDIO_WIN_LEN_SAMPLES"
    using Cons.prems by (simp add: push_sample_def)
  then have 3: "length (audio_buffer (push_sample ext x st)) \<noteq> AUDIO_WIN_LEN_SAMPLES" by simp
  from Cons.IH[OF 2] 3 show ?case
    by (simp add: feedAudioContent_sample[OF 1] fill_Cons)
qed

lemma feedAudioContent_fill_window:
  "length (audio_buffer st) + length xs = AUDIO_WIN_LEN_SAMPLES \<Longrightarrow> xs \<noteq> [] \<Longrightarrow>
     feedAudioContent ext st xs = window_step ext (fill ext st xs)"
proof (induction xs arbitrary: st)
  case Nil
  then show ?case by simp
next
  case (Cons x xs)
  have 1: "length (audio_buffer st) < AUDIO_WIN_LEN_SAMPLES" using Cons.prems by simp
  show ?case
  proof (cases "xs = []")
    case True
    with Cons.prems have "length (audio_buffer (push_sample ext x st)) = AUDIO_WIN_LEN_SAMPLES"
      by (simp add: push_sample_def)
    with True show ?thesis
      by (simp add: feedAudioContent_sample[OF 1] fill_Cons)
  next
    case False
    have 2: "length (audio_buffer (push_sample ext x st)) + length xs = AUDIO_WIN_LEN_SAMPLES"
      using Cons.prems by (simp add: push_sample_def)
    with False have 3: "length (audio_buffer (push_sample ext x st)) \<noteq> AUDIO_WIN_LEN_SAMPLES"
      by (cases xs) auto
    from Cons.IH[OF 2 False] 3 show ?thesis
      by (simp add: feedAudioContent_sample[OF 1] fill_Cons)
  qed
qed

lemma window_step_emit:
  "\<not> skip_next_mfcc st \<Longrightarrow>
     window_step ext st =
       (case csf_mfcc ext (audio_buffer st) of
          (n_frames, mfcc) \<Rightarrow>
            if n_frames \<noteq> 1 then Some (Inl AssertionFailed)
            else bind_r (pushMfccBuffer ext (st\<lparr>skip_next_mfcc := True\<rparr>) (map mfcc [0..<MFCC_FEATURES]))
                   (\<lambda>s2. Some (Inr (s2\<lparr>audio_buffer := drop AUDIO_WIN_STEP_SAMPLES (audio_buffer s2)\<rparr>))))"
  by (simp add: window_step_def processAudioWindow_def split: prod.splits)

lemma window_step_skipped:
  "skip_next_mfcc st \<Longrightarrow>
     window_step ext st =
       Some (Inr (st\<lparr>skip_next_mfcc := False,
                     audio_buffer := drop AUDIO_WIN_STEP_SAMPLES (audio_buffer st)\<rparr>))"
  by (simp add: window_step_def processAudioWindow_def)

text \<open>C2, as the code has it. From a fresh stream (toggle false, raw window empty):
  feeding exactly \<open>AUDIO_WIN_LEN_SAMPLES\<close> samples processes exactly one raw window, the
  pre-emphasised samples themselves, and this first window goes to the extractor and its
  feature vector is pushed; any state returned holds the last
  \<open>AUDIO_WIN_LEN_SAMPLES - AUDIO_WIN_STEP_SAMPLES = 240\<close> values of the window and has the
  toggle set. Feeding \<open>AUDIO_WIN_LEN_SAMPLES + AUDIO_WIN_STEP_SAMPLES\<close> samples in total
  does that and then processes exactly one more window, which only resets the toggle: the
  second window yields no feature vector, and the feature window, the batch window, the
  logits and the session are as the first window left them. With well-sized buffers and an
  extractor that returns one frame per window both feeds return a state.\<close>

theorem window_arithmetic:
  "skip_next_mfcc st0 = False \<and> audio_buffer st0 = [] \<longrightarrow>
     (length xs = AUDIO_WIN_LEN_SAMPLES \<longrightarrow>
        feedAudioContent ext st0 xs =
          (case csf_mfcc ext (preemphasis ext (last_sample st0) xs) of
             (n_frames, mfcc) \<Rightarrow>
               if n_frames \<noteq> 1 then Some (Inl AssertionFailed)
               else bind_r (pushMfccBuffer ext ((fill ext st0 xs)\<lparr>skip_next_mfcc := True\<rparr>)
                              (map mfcc [0..<MFCC_FEATURES]))
                      (\<lambda>s2. Some (Inr (s2\<lparr>audio_buffer :=
                                              drop AUDIO_WIN_STEP_SAMPLES (audio_buffer s2)\<rparr>)))) \<and>
        (\<forall>s1. feedAudioContent ext st0 xs = Some (Inr s1) \<longrightarrow>
               audio_buffer s1 = drop AUDIO_WIN_STEP_SAMPLES (preemphasis ext (last_sample st0) xs) \<and>
               length (audio_buffer s1) = AUDIO_WIN_LEN_SAMPLES - AUDIO_WIN_STEP_SAMPLES \<and>
               skip_next_mfcc s1 = True)) \<and>
     (length xs = AUDIO_WIN_LEN_SAMPLES + AUDIO_WIN_STEP_SAMPLES \<longrightarrow>
        feedAudioContent ext st0 xs =
          bind_r (feedAudioContent ext st0 (take AUDIO_WIN_LEN_SAMPLES xs)) (\<lambda>s1.
            Some (Inr ((fill ext s1 (drop AUDIO_WIN_LEN_SAMPLES xs))
                         \<lparr>skip_next_mfcc := False,
                          audio_buffer := drop AUDIO_WIN_STEP_SAMPLES
                             (audio_buffer (fill ext s1 (drop AUDIO_WIN_LEN_SAMPLES xs)))\<rparr>))) \<and>
        (\<forall>s1 s2. feedAudioContent ext st0 (take AUDIO_WIN_LEN_SAMPLES xs) = Some (Inr s1) \<and>
                  feedAudioContent ext st0 xs = Some (Inr s2) \<longrightarrow>
               length (audio_buffer s2) = AUDIO_WIN_LEN_SAMPLES - AUDIO_WIN_STEP_SAMPLES \<and>
               skip_next_mfcc s2 = False \<and>
               mfcc_buffer s2 = mfcc_buffer s1 \<and> batch_buffer s2 = batch_buffer s1 \<and>
               accumulated_logits s2 = accumulated_logits s1 \<and> model s2 = model s1)) \<and>
     (buffers_ok st0 \<and> extractor_ok ext \<longrightarrow> (\<exists>s. feedAudioContent ext st0 xs = Some (Inr s)))"
proof (intro impI conjI allI; (elim conjE)?)
  assume fresh: "skip_next_mfcc st0 = False" "audio_buffer st0 = []"
  then have ab: "audio_buffer (fill ext st0 ys) = preemphasis ext (last_sample st0) ys" for ys
    by (simp add: fill_def)
  have one: "feedAudioContent ext st0 ys = window_step ext (fill ext st0 ys)"
    if "length ys = AUDIO_WIN_LEN_SAMPLES" for ys
    by (rule feedAudioContent_fill_window)
       (use that fresh in \<open>auto simp: AUDIO_WIN_LEN_SAMPLES_def\<close>)
  have lt0: "length (audio_buffer st0) < AUDIO_WIN_LEN_SAMPLES"
    using fresh by (simp add: AUDIO_WIN_LEN_SAMPLES_def)
  {
    assume len: "length xs = AUDIO_WIN_LEN_SAMPLES"
    show "feedAudioContent ext st0 xs =
          (case csf_mfcc ext (preemphasis ext (last_sample st0) xs) of
             (n_frames, mfcc) \<Rightarrow>
               if n_frames \<noteq> 1 then Some (Inl AssertionFailed)
               else bind_r (pushMfccBuffer ext ((fill ext st0 xs)\<lparr>skip_next_mfcc := True\<rparr>)
                              (map mfcc [0..<MFCC_FEATURES]))
                      (\<lambda>s2. Some (Inr (s2\<lparr>audio_buffer :=
                                              drop AUDIO_WIN_STEP_SAMPLES (audio_buffer s2)\<rparr>))))"
      unfolding one[OF len] using fresh by (simp add: window_step_emit ab)
    fix s1
    assume "feedAudioContent ext st0 xs = Some (Inr s1)"
    then have w: "window_step ext (fill ext st0 xs) = Some (Inr s1)" by (simp add: one[OF len])
    from window_step_audio[OF w] window_step_skip[OF w] fresh len
    show "audio_buffer s1 = drop AUDIO_WIN_STEP_SAMPLES (preemphasis ext (last_sample st0) xs)"
      "length (audio_buffer s1) = AUDIO_WIN_LEN_SAMPLES - AUDIO_WIN_STEP_SAMPLES"
      "skip_next_mfcc s1 = True"
      by (simp_all add: ab)
  }
  {
    assume len: "length xs = AUDIO_WIN_LEN_SAMPLES + AUDIO_WIN_STEP_SAMPLES"
    let ?a = "take AUDIO_WIN_LEN_SAMPLES xs" and ?b = "drop AUDIO_WIN_LEN_SAMPLES xs"
    have la: "length ?a = AUDIO_WIN_LEN_SAMPLES" and lb: "length ?b = AUDIO_WIN_STEP_SAMPLES"
      using len by simp_all
    have second: "feedAudioContent ext s1 ?b =
            Some (Inr ((fill ext s1 ?b)
                         \<lparr>skip_next_mfcc := False,
                          audio_buffer := drop AUDIO_WIN_STEP_SAMPLES (audio_buffer (fill ext s1 ?b))\<rparr>))"
      if f1: "feedAudioContent ext st0 ?a = Some (Inr s1)" for s1
    proof -
      from f1 have w: "window_step ext (fill ext st0 ?a) = Some (Inr s1)" by (simp add: one[OF la])
      from window_step_audio[OF w] window_step_skip[OF w] fresh la
      have l1: "length (audio_buffer s1) = 240" and sk: "skip_next_mfcc s1"
        by (simp_all add: AUDIO_WIN_LEN_SAMPLES_def AUDIO_WIN_STEP_SAMPLES_def)
      have "feedAudioContent ext s1 ?b = window_step ext (fill ext s1 ?b)"
        by (rule feedAudioContent_fill_window)
           (use l1 lb in \<open>auto simp: AUDIO_WIN_LEN_SAMPLES_def AUDIO_WIN_STEP_SAMPLES_def\<close>)
      then show ?thesis using sk by (simp add: window_step_skipped)
    qed
    have split: "feedAudioContent ext st0 xs =
        bind_r (feedAudioContent ext st0 ?a) (\<lambda>s1. feedAudioContent ext s1 ?b)"
      using feedAudioContent_append[of ext st0 ?a ?b] by simp
    show "feedAudioContent ext st0 xs =
          bind_r (feedAudioContent ext st0 ?a) (\<lambda>s1.
            Some (Inr ((fill ext s1 ?b)
                         \<lparr>skip_next_mfcc := False,
                          audio_buffer := drop AUDIO_WIN_STEP_SAMPLES (audio_buffer (fill ext s1 ?b))\<rparr>)))"
      unfolding split by (rule bind_r_cong) (rule second)
    fix s1 s2
    assume f1: "feedAudioContent ext st0 ?a = Some (Inr s1)"
      and f2: "feedAudioContent ext st0 xs = Some (Inr s2)"
    from f2 f1 second[OF f1]
    have s2: "s2 = (fill ext s1 ?b)
                         \<lparr>skip_next_mfcc := False,
                          audio_buffer := drop AUDIO_WIN_STEP_SAMPLES (audio_buffer (fill ext s1 ?b))\<rparr>"
      by (simp add: split)
    from f1 have w: "window_step ext (fill ext st0 ?a) = Some (Inr s1)" by (simp add: one[OF la])
    from window_step_audio[OF w] fresh la
    have l1: "length (audio_buffer s1) = 240"
      by (simp add: AUDIO_WIN_LEN_SAMPLES_def AUDIO_WIN_STEP_SAMPLES_def)
    show "length (audio_buffer s2) = AUDIO_WIN_LEN_SAMPLES - AUDIO_WIN_STEP_SAMPLES"
      "skip_next_mfcc s2 = False" "mfcc_buffer s2 = mfcc_buffer s1" "batch_buffer s2 = batch_buffer s1"
      "accumulated_logits s2 = accumulated_logits s1" "model s2 = model s1"
      using l1 lb by (simp_all add: s2 AUDIO_WIN_LEN_SAMPLES_def AUDIO_WIN_STEP_SAMPLES_def)
  }
  assume "buffers_ok st0" "extractor_ok ext"
  from feed_total_Inr[OF this(2)] show "\<exists>s. feedAudioContent ext st0 xs = Some (Inr s)"
    by (simp add: feed_total_correct[OF \<open>buffers_ok st0\<close> lt0])
qed

lemma features_mock:
  "features mock_externals (y # ys) = replicate 26 y"
  by (simp add: features_def mock_externals_def MFCC_FEATURES_def map_replicate_const)

lemma first_window_mock:
  assumes "length xs = 399"
  shows "feedAudioContent mock_externals mock_stream (x # xs) =
           Some (Inr ((fill mock_externals mock_stream (x # xs))
                        \<lparr>skip_next_mfcc := True,
                         mfcc_buffer := replicate 26 0 @ replicate 26 (real_of_int (sint x)),
                         audio_buffer := drop 160 (audio_buffer (fill mock_externals mock_stream (x # xs)))\<rparr>))"
proof -
  let ?s = "fill mock_externals mock_stream (x # xs)"
  have ok: "buffers_ok ?s" using buffers_ok_mock_stream by simp
  have ab: "audio_buffer ?s = real_of_int (sint x) # preemphasis mock_externals (real_of_int (sint x)) xs"
    by (simp add: fill_def mock_stream_def mock_externals_def)
  have sk: "\<not> skip_next_mfcc ?s" by (simp add: mock_stream_def)
  have mb: "mfcc_buffer mock_stream = replicate 26 0" by (simp add: mock_stream_def)
  have F: "unat (mfcc_feats_per_timestep (model mock_stream)) = 78" by (simp add: mock_stream_def mock_model_def)
  have one: "fst (csf_mfcc mock_externals (audio_buffer ?s)) = 1" by (simp add: mock_externals_def)
  have pw: "process_window mock_externals ?s (audio_buffer ?s) =
          Inr (?s\<lparr>skip_next_mfcc := True, mfcc_buffer := replicate 26 0 @ replicate 26 (real_of_int (sint x))\<rparr>)"
    using sk one unfolding process_window_def ab features_mock push_vector_def
    by (simp add: mb F)
  have "feedAudioContent mock_externals mock_stream (x # xs) = window_step mock_externals ?s"
    by (rule feedAudioContent_fill_window)
       (use assms in \<open>simp_all add: mock_stream_def AUDIO_WIN_LEN_SAMPLES_def\<close>)
  also have "\<dots> = Some (Inr (?s\<lparr>skip_next_mfcc := True,
                         mfcc_buffer := replicate 26 0 @ replicate 26 (real_of_int (sint x)),
                         audio_buffer := drop 160 (audio_buffer ?s)\<rparr>))"
    unfolding window_step_ok[OF ok] pw by (simp add: AUDIO_WIN_STEP_SAMPLES_def)
  finally show ?thesis .
qed

text \<open>C2 as stated fails: with an extractor whose features are the first value of the
  window, a stream fed a 1 followed by zeros holds the feature vector of the first window
  (26 ones after the 26 zeros of the setup) as soon as 400 samples are in, and after 560
  samples the feature window is the same and the toggle is reset: the second window
  yielded nothing.\<close>

theorem window_arithmetic_counterexample:
  "feature_window_of (feedAudioContent mock_externals mock_stream (1 # replicate 399 0))
     = Some (Inr (replicate 26 0 @ replicate 26 1, True)) \<and>
   feature_window_of (feedAudioContent mock_externals mock_stream (1 # replicate 559 0))
     = Some (Inr (replicate 26 0 @ replicate 26 1, False))"
proof
  note f1 = first_window_mock[of "replicate 399 0" 1, simplified]
  show "feature_window_of (feedAudioContent mock_externals mock_stream (1 # replicate 399 0))
     = Some (Inr (replicate 26 0 @ replicate 26 1, True))"
    unfolding f1 by (simp add: feature_window_of_def)
  let ?s = "fill mock_externals mock_stream (1 # replicate 399 0)"
  let ?s1 = "?s\<lparr>skip_next_mfcc := True,
                         mfcc_buffer := replicate 26 0 @ replicate 26 1,
                         audio_buffer := drop 160 (audio_buffer ?s)\<rparr>"
  have l1: "length (audio_buffer ?s1) = 240" by (simp add: mock_stream_def)
  have second: "feedAudioContent mock_externals ?s1 (replicate 160 0) =
      window_step mock_externals (fill mock_externals ?s1 (replicate 160 0))"
    by (rule feedAudioContent_fill_window) (use l1 in \<open>simp_all add: AUDIO_WIN_LEN_SAMPLES_def\<close>)
  have split: "(1 :: 16 word) # replicate 559 0 = (1 # replicate 399 0) @ replicate 160 0"
    by (simp add: replicate_add[symmetric])
  show "feature_window_of (feedAudioContent mock_externals mock_stream (1 # replicate 559 0))
     = Some (Inr (replicate 26 0 @ replicate 26 1, False))"
    unfolding split feedAudioContent_append f1
    by (simp add: second window_step_skipped feature_window_of_def)
qed

theorem window_arithmetic_witness:
  "skip_next_mfcc mock_stream = False \<and> audio_buffer mock_stream = [] \<and>
   length (1 # replicate 559 (0 :: 16 word)) = AUDIO_WIN_LEN_SAMPLES + AUDIO_WIN_STEP_SAMPLES \<and>
   buffers_ok mock_stream \<and> extractor_ok mock_externals \<and>
   feedAudioContent mock_externals mock_stream (1 # replicate 559 0) =
     bind_r (feedAudioContent mock_externals mock_stream (1 # replicate 399 0)) (\<lambda>s1.
       Some (Inr ((fill mock_externals s1 (replicate 160 0))
                    \<lparr>skip_next_mfcc := False,
                     audio_buffer := drop 160 (audio_buffer (fill mock_externals s1 (replicate 160 0)))\<rparr>))) \<and>
   (\<exists>s. feedAudioContent mock_externals mock_stream (1 # replicate 559 0) = Some (Inr s))"
proof -
  have h: "skip_next_mfcc mock_stream = False \<and> audio_buffer mock_stream = []"
    by (simp add: mock_stream_def)
  have l: "length (1 # replicate 559 (0 :: 16 word)) = AUDIO_WIN_LEN_SAMPLES + AUDIO_WIN_STEP_SAMPLES"
    by (simp add: AUDIO_WIN_LEN_SAMPLES_def AUDIO_WIN_STEP_SAMPLES_def)
  have o: "buffers_ok mock_stream \<and> extractor_ok mock_externals"
    using buffers_ok_mock_stream extractor_ok_mock(1) by simp
  note T = window_arithmetic[of mock_stream "1 # replicate 559 0" mock_externals, THEN mp, OF h]
  from T[THEN conjunct2, THEN conjunct1, THEN mp, OF l, THEN conjunct1]
  have e: "feedAudioContent mock_externals mock_stream (1 # replicate 559 0) =
     bind_r (feedAudioContent mock_externals mock_stream (1 # replicate 399 0)) (\<lambda>s1.
       Some (Inr ((fill mock_externals s1 (replicate 160 0))
                    \<lparr>skip_next_mfcc := False,
                     audio_buffer := drop 160 (audio_buffer (fill mock_externals s1 (replicate 160 0)))\<rparr>)))"
    by (simp add: AUDIO_WIN_LEN_SAMPLES_def AUDIO_WIN_STEP_SAMPLES_def)
  from h l o e T[THEN conjunct2, THEN conjunct2, THEN mp, OF o] show ?thesis by blast
qed

subsection \<open>Counting the inference calls\<close>

lemma shape_run_batch:
  "recording runs ext \<Longrightarrow>
     runs (session (model (run_batch ext st buf n))) = runs (session (model st)) @ [n]"
  by (simp add: run_batch_def split: prod.splits) (metis recording_def fst_conv)

lemma shape_push_vector:
  assumes "recording runs ext" "length v = MFCC_FEATURES"
  shows "snd (shape runs (push_vector ext st v))
           = abs_push (unat (mfcc_feats_per_timestep (model st))) (n_steps (model st)) (snd (shape runs st))"
proof -
  let ?F = "unat (mfcc_feats_per_timestep (model st))"
  have len: "length (drop MFCC_FEATURES (mfcc_buffer st @ v)) = length (mfcc_buffer st)"
    using assms(2) by (simp del: drop_append)
  show ?thesis
  proof (cases "length (mfcc_buffer st) + MFCC_FEATURES = ?F")
    case False
    then show ?thesis using assms(2) by (simp add: shape_def abs_push_def push_vector_def)
  next
    case True
    then have m: "length (mfcc_buffer st) = ?F - MFCC_FEATURES" by simp
    show ?thesis
    proof (cases "length (batch_buffer st) + ?F = unat (n_steps (model st)) * ?F")
      case full: True
      have "runs (session (model (push_vector ext st v))) = runs (session (model st)) @ [n_steps (model st)]"
        using True full assms(2) by (simp add: push_vector_def emit_timestep_def shape_run_batch[OF assms(1)])
      moreover have "batch_buffer (push_vector ext st v) = []"
        using True full assms(2) by (simp add: push_vector_def emit_timestep_def)
      moreover have "mfcc_buffer (push_vector ext st v) = drop MFCC_FEATURES (mfcc_buffer st @ v)"
        using True assms(2) by (simp add: push_vector_def del: drop_append)
      ultimately have "snd (shape runs (push_vector ext st v))
          = (?F - MFCC_FEATURES, 0, runs (session (model st)) @ [n_steps (model st)])"
        unfolding shape_def by (simp add: len m del: drop_append length_drop)
      moreover have "abs_push ?F (n_steps (model st)) (snd (shape runs st))
          = (?F - MFCC_FEATURES, 0, runs (session (model st)) @ [n_steps (model st)])"
        using True full by (simp add: shape_def abs_push_def)
      ultimately show ?thesis by simp
    next
      case False
      have "session (model (push_vector ext st v)) = session (model st)"
        using True False assms(2) by (simp add: push_vector_def emit_timestep_def)
      moreover have "batch_buffer (push_vector ext st v) = batch_buffer st @ mfcc_buffer st @ v"
        using True False assms(2) by (simp add: push_vector_def emit_timestep_def)
      moreover have "mfcc_buffer (push_vector ext st v) = drop MFCC_FEATURES (mfcc_buffer st @ v)"
        using True assms(2) by (simp add: push_vector_def del: drop_append)
      ultimately have "snd (shape runs (push_vector ext st v))
          = (?F - MFCC_FEATURES, length (batch_buffer st) + ?F, runs (session (model st)))"
        unfolding shape_def using True assms(2) by (simp add: len m del: drop_append length_drop)
      moreover have "abs_push ?F (n_steps (model st)) (snd (shape runs st))
          = (?F - MFCC_FEATURES, length (batch_buffer st) + ?F, runs (session (model st)))"
        using True False by (simp add: shape_def abs_push_def)
      ultimately show ?thesis by simp
    qed
  qed
qed

lemma shape_process_window:
  assumes "recording runs ext" "extractor_ok ext"
  shows "\<exists>s. process_window ext st buf = Inr s \<and>
             shape runs s = abs_window (unat (mfcc_feats_per_timestep (model st))) (n_steps (model st)) (shape runs st) \<and>
             audio_buffer s = audio_buffer st \<and> config (model s) = config (model st)"
proof (cases "skip_next_mfcc st")
  case True
  then show ?thesis by (simp add: process_window_def shape_def abs_window_def)
next
  case False
  let ?s = "push_vector ext (st\<lparr>skip_next_mfcc := True\<rparr>) (features ext buf)"
  have v: "length (features ext buf) = MFCC_FEATURES" by (simp add: features_def)
  have p: "process_window ext st buf = Inr ?s"
    using False assms(2) by (simp add: process_window_def extractor_ok_def)
  from shape_push_vector[OF assms(1) v, of "st\<lparr>skip_next_mfcc := True\<rparr>"]
  have "snd (shape runs ?s) = abs_push (unat (mfcc_feats_per_timestep (model st))) (n_steps (model st)) (snd (shape runs st))"
    by (simp add: shape_def)
  moreover have "fst (shape runs ?s) = True" by (simp add: shape_def)
  ultimately have "shape runs ?s = abs_window (unat (mfcc_feats_per_timestep (model st))) (n_steps (model st)) (shape runs st)"
    using False by (simp add: abs_window_def shape_def prod_eq_iff)
  with p show ?thesis by simp
qed

lemma feed_total_shape:
  assumes "recording runs ext" "extractor_ok ext"
  shows "length (audio_buffer st) < AUDIO_WIN_LEN_SAMPLES \<Longrightarrow>
     \<exists>s. feed_total ext st xs = Inr s \<and>
         shape runs s = (abs_window (unat (mfcc_feats_per_timestep (model st))) (n_steps (model st))
                          ^^ nwin (length (audio_buffer st) + length xs)) (shape runs st) \<and>
         config (model s) = config (model st)"
proof (induction xs arbitrary: st)
  case Nil
  then show ?case by (simp add: nwin_small AUDIO_WIN_LEN_SAMPLES_def)
next
  case (Cons x xs)
  let ?st' = "push_sample ext x st"
  let ?aw = "abs_window (unat (mfcc_feats_per_timestep (model st))) (n_steps (model st))"
  have len': "length (audio_buffer ?st') = Suc (length (audio_buffer st))"
    and sh': "shape runs ?st' = shape runs st" and m': "model ?st' = model st"
    by (simp_all add: push_sample_def shape_def)
  show ?case
  proof (cases "length (audio_buffer ?st') = AUDIO_WIN_LEN_SAMPLES")
    case False
    with Cons.prems len' have lt: "length (audio_buffer ?st') < AUDIO_WIN_LEN_SAMPLES" by simp
    from Cons.IH[OF lt] False show ?thesis by (simp add: len' sh' m')
  next
    case True
    from shape_process_window[OF assms, of ?st' "audio_buffer ?st'"]
    obtain s1 where p: "process_window ext ?st' (audio_buffer ?st') = Inr s1"
      and sh1: "shape runs s1 = ?aw (shape runs st)"
      and ab1: "audio_buffer s1 = audio_buffer ?st'" and c1: "config (model s1) = config (model st)"
      by (auto simp: sh' m')
    let ?s1 = "s1\<lparr>audio_buffer := drop AUDIO_WIN_STEP_SAMPLES (audio_buffer s1)\<rparr>"
    have l1: "length (audio_buffer ?s1) = 240"
      using ab1 True by (simp add: AUDIO_WIN_LEN_SAMPLES_def AUDIO_WIN_STEP_SAMPLES_def)
    then have lt: "length (audio_buffer ?s1) < AUDIO_WIN_LEN_SAMPLES"
      by (simp add: AUDIO_WIN_LEN_SAMPLES_def)
    have c1': "unat (mfcc_feats_per_timestep (model ?s1)) = unat (mfcc_feats_per_timestep (model st))"
      "n_steps (model ?s1) = n_steps (model st)" "config (model ?s1) = config (model st)"
      using c1 by (simp_all add: config_def)
    have sh1': "shape runs ?s1 = ?aw (shape runs st)" using sh1 by (simp add: shape_def)
    from True len' have a: "length (audio_buffer st) = 399" by (simp add: AUDIO_WIN_LEN_SAMPLES_def)
    have n: "nwin (length (audio_buffer st) + length (x # xs)) = Suc (nwin (240 + length xs))"
      using nwin_step[of "length xs"] by (simp add: a)
    from Cons.IH[OF lt]
    have "\<exists>s. feed_total ext ?s1 xs = Inr s \<and>
         shape runs s = (?aw ^^ nwin (240 + length xs)) (?aw (shape runs st)) \<and>
         config (model s) = config (model st)"
      unfolding c1' l1 sh1' .
    then obtain s where f: "feed_total ext ?s1 xs = Inr s"
      and sh: "shape runs s = (?aw ^^ nwin (240 + length xs)) (?aw (shape runs st))"
      and c: "config (model s) = config (model st)"
      by blast
    have "(?aw ^^ nwin (240 + length xs)) (?aw (shape runs st)) = (?aw ^^ Suc (nwin (240 + length xs))) (shape runs st)"
      using funpow_swap1[of ?aw "nwin (240 + length xs)" "shape runs st"] by simp
    with f sh c p True show ?thesis unfolding n by simp
  qed
qed

lemma shape_push_zero_funpow:
  assumes "recording runs ext"
  shows "snd (shape runs (((\<lambda>s. push_vector ext s (zero_vector ext)) ^^ k) st))
           = (abs_push (unat (mfcc_feats_per_timestep (model st))) (n_steps (model st)) ^^ k) (snd (shape runs st))"
proof (induction k)
  case 0
  show ?case by simp
next
  case (Suc k)
  let ?s = "((\<lambda>s. push_vector ext s (zero_vector ext)) ^^ k) st"
  have c: "config (model ?s) = config (model st)" by simp
  then have "unat (mfcc_feats_per_timestep (model ?s)) = unat (mfcc_feats_per_timestep (model st))"
    "n_steps (model ?s) = n_steps (model st)" by (simp_all add: config_def)
  with shape_push_vector[OF assms zero_vector_length, of ?s ext] Suc show ?case by simp
qed

lemma finish_state_shape:
  assumes "recording runs ext" "extractor_ok ext" "buffers_ok st"
  shows "\<exists>s3. finish_state ext st = Inr s3 \<and>
           runs (session (model s3))
             = abs_finish (unat (mfcc_feats_per_timestep (model st))) (n_steps (model st))
                 (unat (n_context (model st))) (shape runs st)"
proof -
  let ?F = "unat (mfcc_feats_per_timestep (model st))" and ?ns = "n_steps (model st)"
  from shape_process_window[OF assms(1,2), of st "audio_buffer st"]
  obtain s1 where p: "process_window ext st (audio_buffer st) = Inr s1"
    and sh1: "shape runs s1 = abs_window ?F ?ns (shape runs st)"
    and c1: "config (model s1) = config (model st)" by auto
  then have c1': "unat (mfcc_feats_per_timestep (model s1)) = ?F" "n_steps (model s1) = ?ns"
    "n_context (model s1) = n_context (model st)" by (simp_all add: config_def)
  let ?s2 = "((\<lambda>s. push_vector ext s (zero_vector ext)) ^^ unat (n_context (model st))) s1"
  have sh2: "snd (shape runs ?s2) = (abs_push ?F ?ns ^^ unat (n_context (model st))) (snd (abs_window ?F ?ns (shape runs st)))"
    using shape_push_zero_funpow[OF assms(1), where k = "unat (n_context (model st))" and st = s1]
    by (simp add: c1' sh1)
  have c2: "unat (mfcc_feats_per_timestep (model ?s2)) = ?F"
    using push_zero_funpow_frame(1)[where ext = ext and k = "unat (n_context (model st))" and st = s1] c1
    by (simp add: config_def)
  have f: "finish_state ext st = Inr (flush_batch ext ?s2)"
    using p by (simp add: finish_state_def c1')
  have "runs (session (model (flush_batch ext ?s2)))
          = (if length (batch_buffer ?s2) \<noteq> 0
             then runs (session (model ?s2)) @ [word_of_nat (length (batch_buffer ?s2) div ?F)]
             else runs (session (model ?s2)))"
    by (simp add: flush_batch_def shape_run_batch[OF assms(1)] c2)
  also have "\<dots> = abs_finish ?F ?ns (unat (n_context (model st))) (shape runs st)"
    unfolding abs_finish_def sh2[symmetric] by (simp add: shape_def)
  finally show ?thesis using f by simp
qed

lemma nwin_range: "400 + 160 * k \<le> n \<Longrightarrow> n < 560 + 160 * k \<Longrightarrow> nwin n = Suc k"
proof -
  assume a: "400 + 160 * k \<le> n" "n < 560 + 160 * k"
  from a(1) obtain r where n0: "n = 400 + 160 * k + r"
    using le_iff_add by blast
  with a(2) have r: "r < 160" by simp
  from n0 have n: "n = 400 + (r + k * 160)" by simp
  show ?thesis
    unfolding n nwin_def AUDIO_WIN_LEN_SAMPLES_def AUDIO_WIN_STEP_SAMPLES_def
    using r by simp
qed

lemma recording_mock: "recording (\<lambda>s. s) mock_externals"
  by (simp add: recording_def mock_externals_def)

lemma batch_scenario:
  assumes m: "n_steps m = 2" "mfcc_feats_per_timestep m = 78" "n_context m = 1"
    and al: "2 * (alphabet_size m + 1) < 2 ^ 31"
    and rec: "recording runs ext" and ex: "extractor_ok ext"
    and st0: "DS_SetupStream ext m = Inr st0"
    and w: "nwin (length xs) = k"
  shows "\<exists>st1 st2.
           feedAudioContent ext st0 xs = Some (Inr st1) \<and>
           shape runs st1 = (abs_window 78 2 ^^ k) (False, 26, 0, runs (session (model st0))) \<and>
           finish_state ext st1 = Inr st2 \<and>
           finishStream ext st1 =
             (case decode ext (model st2) (accumulated_logits st2) of
                Inl e \<Rightarrow> Some (Inl e)
              | Inr str \<Rightarrow> Some (Inr (st2, str))) \<and>
           runs (session (model st2)) = abs_finish 78 2 1 (shape runs st1)"
proof -
  have wf: "wf_model m" using al by (simp add: wf_model_def m MFCC_FEATURES_def)
  note s = DS_SetupStream_ok[OF wf st0]
  have c0: "unat (mfcc_feats_per_timestep (model st0)) = 78" "n_steps (model st0) = 2"
    "unat (n_context (model st0)) = 1"
    using s(8) m by (simp_all add: config_def)
  have sh0: "shape runs st0 = (False, 26, 0, runs (session (model st0)))"
    using s m by (simp add: shape_def MFCC_FEATURES_def)
  have lt0: "length (audio_buffer st0) < AUDIO_WIN_LEN_SAMPLES"
    using s by (simp add: AUDIO_WIN_LEN_SAMPLES_def)
  from feed_total_shape[OF rec ex lt0, of xs]
  obtain st1 where f: "feed_total ext st0 xs = Inr st1"
    and sh1: "shape runs st1 = (abs_window 78 2 ^^ k) (False, 26, 0, runs (session (model st0)))"
    and c1: "config (model st1) = config (model st0)"
    using w s(2) by (auto simp: c0 sh0)
  from feed_total_ok[OF s(1) lt0 f] have ok1: "buffers_ok st1" by simp
  have c1': "unat (mfcc_feats_per_timestep (model st1)) = 78" "n_steps (model st1) = 2"
    "unat (n_context (model st1)) = 1"
    using c1 c0 by (simp_all add: config_def)
  from finish_state_shape[OF rec ex ok1]
  obtain st2 where fs: "finish_state ext st1 = Inr st2"
    and r2: "runs (session (model st2)) = abs_finish 78 2 1 (shape runs st1)"
    by (auto simp: c1')
  have "feedAudioContent ext st0 xs = Some (Inr st1)"
    by (simp add: feed_total_correct[OF s(1) lt0] f)
  moreover have "finishStream ext st1 =
             (case decode ext (model st2) (accumulated_logits st2) of
                Inl e \<Rightarrow> Some (Inl e)
              | Inr str \<Rightarrow> Some (Inr (st2, str)))"
    by (simp add: finishStream_ok[OF ok1] fs split: sum.splits)
  ultimately show ?thesis using sh1 r2 fs by blast
qed

lemma funpow_8: "(f ^^ 8) x = f (f (f (f (f (f (f (f x)))))))"
  by (simp add: eval_nat_numeral)

lemma abs_window_8:
  "(abs_window 78 2 ^^ 8) (False, 26, 0, L) = (False, 52, 78, L @ [2])"
  unfolding funpow_8 by (simp add: abs_window_def abs_push_def MFCC_FEATURES_def)

lemma abs_window_9:
  "(abs_window 78 2 ^^ 9) (False, 26, 0, L) = (True, 52, 0, L @ [2, 2])"
proof -
  have "(abs_window 78 2 ^^ 9) (False, 26, 0, L) = abs_window 78 2 ((abs_window 78 2 ^^ 8) (False, 26, 0, L))"
    by (simp add: eval_nat_numeral)
  then show ?thesis
    unfolding abs_window_8 by (simp add: abs_window_def abs_push_def MFCC_FEATURES_def)
qed

lemma abs_finish_8: "abs_finish 78 2 (Suc 0) (False, 52, 78, L @ [2]) = L @ [2, 2, 1]"
  by (simp add: abs_finish_def abs_window_def abs_push_def MFCC_FEATURES_def)

lemma abs_finish_9: "abs_finish 78 2 (Suc 0) (True, 52, 0, L @ [2, 2]) = L @ [2, 2, 1]"
  by (simp add: abs_finish_def abs_window_def abs_push_def MFCC_FEATURES_def)

subsection \<open>A stream that was fed nothing\<close>

lemma mock_decode:
  "alphabet_size m' + 1 < 2 ^ 31 \<Longrightarrow>
   length lo div (BATCH_SIZE * (alphabet_size m' + 1)) < 2 ^ 31 \<Longrightarrow>
   decode mock_externals m' lo = Inr (LabelsToString mock_externals
    (map (\<lambda>_. 0) [0..<length lo div (BATCH_SIZE * (alphabet_size m' + 1))]))"
  by (simp add: decode_def mock_externals_def Let_def)

lemma push_zero_funpow_plain:
  "length (mfcc_buffer st) + MFCC_FEATURES * k < unat (mfcc_feats_per_timestep (model st)) \<Longrightarrow>
     ((\<lambda>s. push_vector ext s (zero_vector ext)) ^^ k) st
       = st\<lparr>mfcc_buffer := mfcc_buffer st @ replicate (MFCC_FEATURES * k) (f_zero ext)\<rparr>"
proof (induction k)
  case 0
  show ?case by simp
next
  case (Suc k)
  then have "length (mfcc_buffer st) + MFCC_FEATURES * k < unat (mfcc_feats_per_timestep (model st))"
    by simp
  note IH = Suc.IH[OF this]
  have ne: "length (mfcc_buffer st) + MFCC_FEATURES * k + MFCC_FEATURES \<noteq> unat (mfcc_feats_per_timestep (model st))"
    using Suc.prems by simp
  have r: "replicate (MFCC_FEATURES * Suc k) (f_zero ext)
             = replicate (MFCC_FEATURES * k) (f_zero ext) @ zero_vector ext"
    by (simp add: zero_vector_def replicate_add[symmetric])
  have "((\<lambda>s. push_vector ext s (zero_vector ext)) ^^ Suc k) st
          = push_vector ext (((\<lambda>s. push_vector ext s (zero_vector ext)) ^^ k) st) (zero_vector ext)"
    by simp
  also have "\<dots> = push_vector ext
        (st\<lparr>mfcc_buffer := mfcc_buffer st @ replicate (MFCC_FEATURES * k) (f_zero ext)\<rparr>) (zero_vector ext)"
    unfolding IH ..
  also have "\<dots> = st\<lparr>mfcc_buffer := mfcc_buffer st @ replicate (MFCC_FEATURES * Suc k) (f_zero ext)\<rparr>"
    unfolding r using ne by (simp add: push_vector_def)
  finally show ?case .
qed

text \<open>The logits after the only timestep of a stream has gone through the batch window
  and the final flush.\<close>

lemma single_timestep_logits:
  assumes wf: "wf_model (model X)" and bb: "batch_buffer X = []" and lo: "accumulated_logits X = []"
    and T: "length T = unat (mfcc_feats_per_timestep (model X))"
  shows "accumulated_logits (flush_batch ext ((emit_timestep ext X T)\<lparr>mfcc_buffer := mb\<rparr>)) =
           (case session_run ext (session (model X))
                   (T @ replicate ((unat (n_steps (model X)) - 1) * unat (mfcc_feats_per_timestep (model X)))
                          (f_zero ext)) 1 of
              (s', None) \<Rightarrow> []
            | (s', Some logits_mapped) \<Rightarrow> map logits_mapped [0..<alphabet_size (model X) + 1])"
proof -
  let ?F = "unat (mfcc_feats_per_timestep (model X))"
  have Fpos: "0 < ?F" using wf_feats_pos[OF wf] by (simp add: MFCC_FEATURES_def)
  have nspos: "0 < unat (n_steps (model X))" by (rule wf_modelD(2)[OF wf])
  show ?thesis
  proof (cases "unat (n_steps (model X)) = 1")
    case True
    then have ns1: "n_steps (model X) = 1" by (metis unat_1 word_unat_eq_iff)
    have e: "emit_timestep ext X T = (run_batch ext (X\<lparr>batch_buffer := T\<rparr>) T 1)\<lparr>batch_buffer := []\<rparr>"
      using True bb T by (simp add: emit_timestep_def ns1)
    show ?thesis
      unfolding e using True T lo
      by (simp add: flush_batch_def run_batch_def ns1 split: prod.splits option.splits)
  next
    case False
    with nspos have gt: "1 < unat (n_steps (model X))" by simp
    have e: "emit_timestep ext X T = X\<lparr>batch_buffer := T\<rparr>"
      using gt bb T Fpos by (simp add: emit_timestep_def)
    have ne: "T \<noteq> []" using T Fpos by auto
    show ?thesis
      unfolding e using T lo ne Fpos
      by (simp add: flush_batch_def run_batch_def split: prod.splits option.splits)
  qed
qed

lemma empty_stream_finish_state:
  assumes wf: "wf_model m" and st0: "DS_SetupStream ext m = Inr st0" and one: "fst (csf_mfcc ext []) = 1"
  shows "\<exists>s3. finish_state ext st0 = Inr s3 \<and> config (model s3) = config m \<and>
           accumulated_logits s3 =
             (case session_run ext (session (model st0)) (empty_stream_input ext m) 1 of
                (s', None) \<Rightarrow> []
              | (s', Some logits_mapped) \<Rightarrow> map logits_mapped [0..<alphabet_size m + 1])"
proof -
  note s = DS_SetupStream_ok[OF wf st0]
  let ?nc = "unat (n_context m)"
  let ?Z = "replicate (MFCC_FEATURES * ?nc) (f_zero ext)"
  let ?fv = "features ext []"
  let ?F = "unat (mfcc_feats_per_timestep m)"
  have F: "?F = MFCC_FEATURES * (2 * ?nc + 1)" by (rule wf_modelD(1)[OF wf])
  have c0: "mfcc_feats_per_timestep (model st0) = mfcc_feats_per_timestep m"
    "n_steps (model st0) = n_steps m" "n_context (model st0) = n_context m"
    "alphabet_size (model st0) = alphabet_size m"
    using s(8) by (simp_all add: config_def)
  have wf0: "wf_model (model st0)" using s(1) by (simp add: buffers_ok_def)
  have fv: "length ?fv = MFCC_FEATURES" by (simp add: features_def)
  have pos: "0 < MFCC_FEATURES" by (simp add: MFCC_FEATURES_def)
  let ?st' = "st0\<lparr>skip_next_mfcc := True\<rparr>"
  let ?T = "?Z @ ?fv @ ?Z"
  have lT: "length ?T = ?F" using fv F by simp
  have pw: "process_window ext st0 (audio_buffer st0) = Inr (push_vector ext ?st' ?fv)"
    using s(2,3) one by (simp add: process_window_def)
  have "\<exists>X mb. ((\<lambda>s. push_vector ext s (zero_vector ext)) ^^ ?nc) (push_vector ext ?st' ?fv)
                 = (emit_timestep ext X ?T)\<lparr>mfcc_buffer := mb\<rparr> \<and>
               model X = model st0 \<and> batch_buffer X = [] \<and> accumulated_logits X = []"
  proof (cases ?nc)
    case 0
    then have "push_vector ext ?st' ?fv
        = (emit_timestep ext (?st'\<lparr>mfcc_buffer := ?T\<rparr>) ?T)\<lparr>mfcc_buffer := drop MFCC_FEATURES ?T\<rparr>"
      using s(4) fv F by (simp add: push_vector_def c0)
    with 0 s(5,6) show ?thesis
      by (intro exI[of _ "?st'\<lparr>mfcc_buffer := ?T\<rparr>"] exI[of _ "drop MFCC_FEATURES ?T"]) simp
  next
    case (Suc k)
    have p1: "push_vector ext ?st' ?fv = ?st'\<lparr>mfcc_buffer := ?Z @ ?fv\<rparr>"
      using s(4) fv F Suc pos by (simp add: push_vector_def c0)
    let ?s1 = "?st'\<lparr>mfcc_buffer := ?Z @ ?fv\<rparr>"
    have "length (mfcc_buffer ?s1) + MFCC_FEATURES * k < unat (mfcc_feats_per_timestep (model ?s1))"
      using fv F Suc by (simp add: c0 MFCC_FEATURES_def)
    from push_zero_funpow_plain[OF this, of ext]
    have pk: "((\<lambda>s. push_vector ext s (zero_vector ext)) ^^ k) ?s1
                = ?s1\<lparr>mfcc_buffer := (?Z @ ?fv) @ replicate (MFCC_FEATURES * k) (f_zero ext)\<rparr>"
      by simp
    let ?s2 = "?st'\<lparr>mfcc_buffer := (?Z @ ?fv) @ replicate (MFCC_FEATURES * k) (f_zero ext)\<rparr>"
    have TT: "((?Z @ ?fv) @ replicate (MFCC_FEATURES * k) (f_zero ext)) @ zero_vector ext = ?T"
      using Suc by (simp add: zero_vector_def replicate_add[symmetric])
    have last: "push_vector ext ?s2 (zero_vector ext)
        = (emit_timestep ext (?st'\<lparr>mfcc_buffer := ?T\<rparr>) ?T)\<lparr>mfcc_buffer := drop MFCC_FEATURES ?T\<rparr>"
      unfolding push_vector_def TT[symmetric]
      using fv F Suc by (simp add: c0 zero_vector_def)
    have "((\<lambda>s. push_vector ext s (zero_vector ext)) ^^ ?nc) (push_vector ext ?st' ?fv)
        = push_vector ext (((\<lambda>s. push_vector ext s (zero_vector ext)) ^^ k) (push_vector ext ?st' ?fv))
            (zero_vector ext)"
      by (simp add: Suc)
    also have "\<dots> = push_vector ext ?s2 (zero_vector ext)"
      unfolding p1 pk by simp
    finally have "((\<lambda>s. push_vector ext s (zero_vector ext)) ^^ ?nc) (push_vector ext ?st' ?fv)
        = (emit_timestep ext (?st'\<lparr>mfcc_buffer := ?T\<rparr>) ?T)\<lparr>mfcc_buffer := drop MFCC_FEATURES ?T\<rparr>"
      unfolding last .
    with s(5,6) show ?thesis
      by (intro exI[of _ "?st'\<lparr>mfcc_buffer := ?T\<rparr>"] exI[of _ "drop MFCC_FEATURES ?T"]) simp
  qed
  then obtain X mb where X: "((\<lambda>s. push_vector ext s (zero_vector ext)) ^^ ?nc) (push_vector ext ?st' ?fv)
                 = (emit_timestep ext X ?T)\<lparr>mfcc_buffer := mb\<rparr>"
    and mX: "model X = model st0" and bX: "batch_buffer X = []" and lX: "accumulated_logits X = []"
    by blast
  have wfX: "wf_model (model X)" using wf0 mX by simp
  have lTX: "length ?T = unat (mfcc_feats_per_timestep (model X))" using lT by (simp add: mX c0)
  let ?s3 = "flush_batch ext ((emit_timestep ext X ?T)\<lparr>mfcc_buffer := mb\<rparr>)"
  have fs: "finish_state ext st0 = Inr ?s3"
    by (simp add: finish_state_def pw c0 X)
  have "config (model ?s3) = config m"
    using s(8) by (simp add: mX)
  moreover have "accumulated_logits ?s3 =
             (case session_run ext (session (model st0)) (empty_stream_input ext m) 1 of
                (s', None) \<Rightarrow> []
              | (s', Some logits_mapped) \<Rightarrow> map logits_mapped [0..<alphabet_size m + 1])"
    unfolding single_timestep_logits[OF wfX bX lX lTX]
    by (simp add: mX c0 empty_stream_input_def features_def split: prod.splits option.splits)
  ultimately show ?thesis using fs by blast
qed

lemma DS_FinishStream_ok:
  assumes "buffers_ok st"
  shows "DS_FinishStream ext st =
     Some (case finish_state ext st of
             Inl e \<Rightarrow> Inl e
           | Inr s3 \<Rightarrow> decode ext (model s3) (accumulated_logits s3))"
  by (simp add: DS_FinishStream_def finishStream_ok[OF assms] split: sum.splits)

lemma empty_stream_finish:
  assumes wf: "wf_model m" and st0: "DS_SetupStream ext m = Inr st0"
  shows "fst (csf_mfcc ext []) \<noteq> 1 \<Longrightarrow> DS_FinishStream ext st0 = Some (Inl AssertionFailed)"
    and "fst (csf_mfcc ext []) = 1 \<Longrightarrow>
      DS_FinishStream ext st0 =
        (case session_run ext (session (model st0)) (empty_stream_input ext m) 1 of
           (s', None) \<Rightarrow> Some (decode ext m [])
         | (s', Some logits_mapped) \<Rightarrow> Some (decode ext m (map logits_mapped [0..<alphabet_size m + 1])))"
proof -
  note s = DS_SetupStream_ok[OF wf st0]
  {
    assume "fst (csf_mfcc ext []) \<noteq> 1"
    then have "finish_state ext st0 = Inl AssertionFailed"
      using s(2,3) by (simp add: finish_state_def process_window_def)
    then show "DS_FinishStream ext st0 = Some (Inl AssertionFailed)"
      by (simp add: DS_FinishStream_ok[OF s(1)])
  }
  {
    assume "fst (csf_mfcc ext []) = 1"
    from empty_stream_finish_state[OF wf st0 this]
    obtain s3 where fs: "finish_state ext st0 = Inr s3" and c: "config (model s3) = config m"
      and lo: "accumulated_logits s3 =
             (case session_run ext (session (model st0)) (empty_stream_input ext m) 1 of
                (s', None) \<Rightarrow> []
              | (s', Some logits_mapped) \<Rightarrow> map logits_mapped [0..<alphabet_size m + 1])"
      by blast
    show "DS_FinishStream ext st0 =
        (case session_run ext (session (model st0)) (empty_stream_input ext m) 1 of
           (s', None) \<Rightarrow> Some (decode ext m [])
         | (s', Some logits_mapped) \<Rightarrow> Some (decode ext m (map logits_mapped [0..<alphabet_size m + 1])))"
      unfolding DS_FinishStream_ok[OF s(1)] fs
      by (simp add: lo decode_config[OF c] split: prod.splits option.splits)
  }
qed

lemma mock_decode_one_frame: "decode mock_externals mock_model (map (\<lambda>t. 0) [0..<29]) = Inr ''a''"
proof -
  have "alphabet_size mock_model + 1 < 2 ^ 31"
    "length (map (\<lambda>t. 0 :: real) [0..<29]) div (BATCH_SIZE * (alphabet_size mock_model + 1)) < 2 ^ 31"
    by (simp_all add: mock_model_def BATCH_SIZE_def)
  from mock_decode[OF this] show ?thesis
    by (simp add: mock_model_def BATCH_SIZE_def) (simp add: mock_externals_def)
qed

lemma abs_window_11:
  "(abs_window 78 2 ^^ 11) (False, 26, 0, L) = (True, 52, 78, L @ [2, 2])"
proof -
  have "(11 :: nat) = Suc (Suc 9)" by simp
  then have "(abs_window 78 2 ^^ 11) (False, 26, 0, L)
      = abs_window 78 2 (abs_window 78 2 ((abs_window 78 2 ^^ 9) (False, 26, 0, L)))"
    by (simp only: funpow.simps o_apply)
  then show ?thesis
    unfolding abs_window_9 by (simp add: abs_window_def abs_push_def MFCC_FEATURES_def)
qed

lemma abs_finish_11: "abs_finish 78 2 (Suc 0) (True, 52, 78, L @ [2, 2]) = L @ [2, 2, 2]"
  by (simp add: abs_finish_def abs_window_def abs_push_def MFCC_FEATURES_def)

subsection \<open>Pre-emphasis\<close>

text \<open>C9: a sample \<open>x\<close> fed while the raw window holds fewer than
  \<open>AUDIO_WIN_LEN_SAMPLES\<close> values appends \<open>x - 0.97f * last_sample\<close> to \<open>audio_buffer\<close>
  (the conversion of \<open>x\<close>, the product with the \<^verbatim>\<open>float\<close> constant \<open>0.97f\<close> and the
  difference are the \<^verbatim>\<open>float\<close> operations) and sets \<open>last_sample\<close> to \<open>x\<close>; the window is
  processed and shifted if that filled it, and the rest of the input is fed to the state so
  obtained. When the operations are exact, the value appended is the number
  \<open>x - 0.97 * last_sample\<close>. After a call that returns, \<open>last_sample\<close> is the last sample
  of that call, so the next call starts from it.\<close>

theorem preemphasis_filter:
  "(length (audio_buffer st) < AUDIO_WIN_LEN_SAMPLES \<longrightarrow>
     feedAudioContent ext st (x # xs) =
       (let st' = st\<lparr>audio_buffer := audio_buffer st @
                        [f_sub ext (f_of_short ext x)
                           (f_mul ext (f_literal ext (97 / 100)) (last_sample st))],
                      last_sample := f_of_short ext x\<rparr>
        in if length (audio_buffer st') = AUDIO_WIN_LEN_SAMPLES then
             bind_r (processAudioWindow ext st' (audio_buffer st')) (\<lambda>st2.
               feedAudioContent ext (st2\<lparr>audio_buffer := drop AUDIO_WIN_STEP_SAMPLES (audio_buffer st2)\<rparr>) xs)
           else feedAudioContent ext st' xs)) \<and>
   (exact_floats er \<and> length (audio_buffer sr) < AUDIO_WIN_LEN_SAMPLES \<longrightarrow>
     feedAudioContent er sr (x # xs) =
       (let st' = sr\<lparr>audio_buffer := audio_buffer sr @
                        [real_of_int (sint x) - 97 / 100 * last_sample sr],
                      last_sample := real_of_int (sint x)\<rparr>
        in if length (audio_buffer st') = AUDIO_WIN_LEN_SAMPLES then
             bind_r (processAudioWindow er st' (audio_buffer st')) (\<lambda>st2.
               feedAudioContent er (st2\<lparr>audio_buffer := drop AUDIO_WIN_STEP_SAMPLES (audio_buffer st2)\<rparr>) xs)
           else feedAudioContent er st' xs)) \<and>
   (feedAudioContent ext st0 (ys @ [y]) = Some (Inr st1) \<longrightarrow> last_sample st1 = f_of_short ext y)"
proof -
  have "last_sample st1 = f_of_short ext y" if "feedAudioContent ext st0 (ys @ [y]) = Some (Inr st1)"
  proof -
    from that obtain s where "feedAudioContent ext s [y] = Some (Inr st1)"
      by (auto simp: feedAudioContent_append bind_r_def split: option.splits sum.splits)
    then show ?thesis by (rule feedAudioContent_single_last_sample)
  qed
  then show ?thesis
    by (simp add: feedAudioContent_sample push_sample_def window_step_def bind_r_assoc Let_def
          PREEMPHASIS_COEFF_def exact_floats_def)
qed

text \<open>With exact arithmetic in place of the \<^verbatim>\<open>float\<close> operations: the samples 100 and 200
  fed in one call are buffered as 100 and \<open>200 - 0.97 * 100 = 103\<close>, and the sample 50 fed
  in a second call as \<open>50 - 0.97 * 200 = -144\<close>.\<close>

theorem preemphasis_filter_witness:
  "length (audio_buffer mock_stream) < AUDIO_WIN_LEN_SAMPLES \<and> exact_floats mock_externals \<and>
   feedAudioContent mock_externals mock_stream [100, 200] =
     Some (Inr (mock_stream\<lparr>audio_buffer := [100, 103], last_sample := 200\<rparr>)) \<and>
   length (audio_buffer (mock_stream\<lparr>audio_buffer := [100, 103], last_sample := 200\<rparr>))
     < AUDIO_WIN_LEN_SAMPLES \<and>
   feedAudioContent mock_externals (mock_stream\<lparr>audio_buffer := [100, 103], last_sample := 200\<rparr>) [50] =
     Some (Inr (mock_stream\<lparr>audio_buffer := [100, 103, - 144], last_sample := 50\<rparr>)) \<and>
   last_sample (mock_stream\<lparr>audio_buffer := [100, 103, - 144], last_sample := 50\<rparr>)
     = f_of_short mock_externals 50"
proof -
  let ?s1 = "mock_stream\<lparr>audio_buffer := [100], last_sample := 100\<rparr>"
  let ?s2 = "mock_stream\<lparr>audio_buffer := [100, 103], last_sample := 200\<rparr>"
  let ?s3 = "mock_stream\<lparr>audio_buffer := [100, 103, - 144], last_sample := 50\<rparr>"
  have h0: "length (audio_buffer mock_stream) < AUDIO_WIN_LEN_SAMPLES"
    and h1: "length (audio_buffer ?s1) < AUDIO_WIN_LEN_SAMPLES"
    and h2: "length (audio_buffer ?s2) < AUDIO_WIN_LEN_SAMPLES"
    by (simp_all add: mock_stream_def AUDIO_WIN_LEN_SAMPLES_def)
  have v: "f_of_short mock_externals 100 = 100" "f_of_short mock_externals 200 = 200"
    "f_of_short mock_externals 50 = 50" "f_literal mock_externals r = r"
    "f_sub mock_externals a b = a - b" "f_mul mock_externals a b = a * b" for r a b
    by (simp_all add: mock_externals_def)
  have ex: "exact_floats mock_externals" by (simp add: exact_floats_def mock_externals_def)
  have w: "real_of_int (sint (100 :: 16 word)) = 100" "real_of_int (sint (200 :: 16 word)) = 200"
    "real_of_int (sint (50 :: 16 word)) = 50" by simp_all
  have a: "feedAudioContent mock_externals mock_stream [100, 200] = feedAudioContent mock_externals ?s1 [200]"
    using preemphasis_filter[of mock_stream mock_externals 100 "[200]" mock_externals mock_stream mock_stream "[]" 100 ?s1,
        THEN conjunct1, THEN mp, OF h0]
    by (simp add: v Let_def mock_stream_def AUDIO_WIN_LEN_SAMPLES_def)
  have b: "feedAudioContent mock_externals ?s1 [200] = Some (Inr ?s2)"
    using preemphasis_filter[of ?s1 mock_externals 200 "[]" mock_externals mock_stream mock_stream "[]" 100 ?s1,
        THEN conjunct1, THEN mp, OF h1]
    by (simp add: v Let_def mock_stream_def AUDIO_WIN_LEN_SAMPLES_def)
  have c: "feedAudioContent mock_externals ?s2 [50] = Some (Inr ?s3)"
    using preemphasis_filter[of mock_stream mock_externals 50 "[]" mock_externals ?s2 mock_stream "[]" 100 ?s1,
        THEN conjunct2, THEN conjunct1, THEN mp, OF conjI[OF ex h2]]
    by (simp add: w Let_def mock_stream_def AUDIO_WIN_LEN_SAMPLES_def)
  have d: "last_sample ?s3 = f_of_short mock_externals 50"
    using preemphasis_filter[of mock_stream mock_externals 100 "[]" mock_externals mock_stream ?s2 "[]" 50 ?s3,
        THEN conjunct2, THEN conjunct2, THEN mp] c
    by simp
  from h0 h2 ex a b c d show ?thesis by simp
qed

subsection \<open>Decoding an empty logit sequence\<close>

lemma decode_empty:
  assumes "decoder_contract ext"
  shows "decode ext m [] = Inr []"
proof -
  from assms obtain rest
    where "ctc_beam_search_decoder ext [] (alphabet_size m + 1) (beam_width m) = [] # rest"
    unfolding decoder_contract_def by (metis list.collapse)
  moreover from assms have "LabelsToString ext [] = []" by (simp add: decoder_contract_def)
  ultimately show ?thesis by (simp add: decode_def)
qed

text \<open>C6, as the code has it. Decoding an empty logit sequence hands the decoder zero
  frames, and with the contract of the decoder it returns the empty transcript and is not
  an error; this is what \<open>intermediateDecode\<close> returns on a stream that was just set up.
  But a stream set up on a well-formed model and finished with no sample fed does not
  decode an empty sequence: \<open>finishStream\<close> runs the extractor on the empty raw window (the
  toggle goes from false to true), aborts at the assertion if the frame count is not 1,
  and otherwise forms one timestep and makes one inference call with frame count 1; the
  transcript is the decoding of the \<open>num_classes\<close> logits of that call, and the empty
  transcript if the call failed.\<close>

theorem empty_stream_decode:
  "(decoder_contract ext \<longrightarrow> decode ext m [] = Inr []) \<and>
   (wf_model m \<and> DS_SetupStream ext m = Inr st0 \<longrightarrow>
     (decoder_contract ext \<longrightarrow> intermediateDecode ext st0 = Inr []) \<and>
     (fst (csf_mfcc ext []) \<noteq> 1 \<longrightarrow> DS_FinishStream ext st0 = Some (Inl AssertionFailed)) \<and>
     (fst (csf_mfcc ext []) = 1 \<longrightarrow>
        DS_FinishStream ext st0 =
          (case session_run ext (session (model st0)) (empty_stream_input ext m) 1 of
             (s', None) \<Rightarrow> Some (decode ext m [])
           | (s', Some logits_mapped) \<Rightarrow>
               Some (decode ext m (map logits_mapped [0..<alphabet_size m + 1])))) \<and>
     (fst (csf_mfcc ext []) = 1 \<and> decoder_contract ext \<and>
      snd (session_run ext (session (model st0)) (empty_stream_input ext m) 1) = None \<longrightarrow>
        DS_FinishStream ext st0 = Some (Inr [])))"
proof (intro impI conjI; (elim conjE)?)
  assume "decoder_contract ext"
  then show "decode ext m [] = Inr []" by (rule decode_empty)
next
  assume wf: "wf_model m" and s: "DS_SetupStream ext m = Inr st0" and d: "decoder_contract ext"
  from DS_SetupStream_ok[OF wf s] have "accumulated_logits st0 = []" by simp
  with decode_empty[OF d] show "intermediateDecode ext st0 = Inr []"
    by (simp add: intermediateDecode_def)
next
  assume "wf_model m" "DS_SetupStream ext m = Inr st0" "fst (csf_mfcc ext []) \<noteq> 1"
  then show "DS_FinishStream ext st0 = Some (Inl AssertionFailed)"
    by (rule empty_stream_finish(1))
next
  assume "wf_model m" "DS_SetupStream ext m = Inr st0" "fst (csf_mfcc ext []) = 1"
  then show "DS_FinishStream ext st0 =
          (case session_run ext (session (model st0)) (empty_stream_input ext m) 1 of
             (s', None) \<Rightarrow> Some (decode ext m [])
           | (s', Some logits_mapped) \<Rightarrow>
               Some (decode ext m (map logits_mapped [0..<alphabet_size m + 1])))"
    by (rule empty_stream_finish(2))
next
  assume wf: "wf_model m" and s: "DS_SetupStream ext m = Inr st0" and one: "fst (csf_mfcc ext []) = 1"
    and d: "decoder_contract ext"
    and f: "snd (session_run ext (session (model st0)) (empty_stream_input ext m) 1) = None"
  from f obtain s' where "session_run ext (session (model st0)) (empty_stream_input ext m) 1 = (s', None)"
    by (cases "session_run ext (session (model st0)) (empty_stream_input ext m) 1") simp
  with decode_empty[OF d, of m] show "DS_FinishStream ext st0 = Some (Inr [])"
    unfolding empty_stream_finish(2)[OF wf s one] by simp
qed

lemma decoder_contract_mock: "decoder_contract mock_externals"
  by (simp add: decoder_contract_def mock_externals_def)

theorem empty_stream_decode_witness:
  "decoder_contract mock_externals \<and> decode mock_externals mock_model [] = Inr [] \<and>
   wf_model mock_model \<and> DS_SetupStream mock_externals mock_model = Inr mock_stream \<and>
   intermediateDecode mock_externals mock_stream = Inr [] \<and>
   fst (csf_mfcc mock_externals []) = 1 \<and>
   DS_FinishStream mock_externals mock_stream
     = Some (decode mock_externals mock_model (map (\<lambda>t. 0) [0..<29])) \<and>
   decoder_contract failing_externals \<and>
   DS_SetupStream failing_externals mock_model = Inr mock_stream \<and>
   fst (csf_mfcc failing_externals []) = 1 \<and>
   snd (session_run failing_externals (session (model mock_stream))
          (empty_stream_input failing_externals mock_model) 1) = None \<and>
   DS_FinishStream failing_externals mock_stream = Some (Inr [])"
proof -
  have h: "wf_model mock_model \<and> DS_SetupStream mock_externals mock_model = Inr mock_stream"
    using wf_mock_model mock_setup by simp
  have one: "fst (csf_mfcc mock_externals []) = 1" by (simp add: mock_externals_def)
  have run: "session_run mock_externals s i n = (s @ [n], Some (\<lambda>t. 0))" for s i n
    by (simp add: mock_externals_def)
  note T = empty_stream_decode[of mock_externals mock_model mock_stream]
  from T[THEN conjunct1, THEN mp, OF decoder_contract_mock]
  have a: "decode mock_externals mock_model [] = Inr []" .
  from T[THEN conjunct2, THEN mp, OF h, THEN conjunct1, THEN mp, OF decoder_contract_mock]
  have b: "intermediateDecode mock_externals mock_stream = Inr []" .
  from T[THEN conjunct2, THEN mp, OF h, THEN conjunct2, THEN conjunct2, THEN conjunct1, THEN mp, OF one]
  have c: "DS_FinishStream mock_externals mock_stream
     = Some (decode mock_externals mock_model (map (\<lambda>t. 0) [0..<29]))"
    unfolding run by (simp add: mock_model_def)
  have fc: "decoder_contract failing_externals"
    by (simp add: decoder_contract_def failing_externals_def mock_externals_def)
  have fs: "DS_SetupStream failing_externals mock_model = Inr mock_stream"
    by (simp add: DS_SetupStream_def failing_externals_def mock_externals_def mock_model_def
          mock_stream_def MFCC_FEATURES_def)
  have fone: "fst (csf_mfcc failing_externals []) = 1"
    by (simp add: failing_externals_def mock_externals_def)
  have frun: "snd (session_run failing_externals (session (model mock_stream))
          (empty_stream_input failing_externals mock_model) 1) = None"
    by (simp add: failing_externals_def)
  have h': "wf_model mock_model \<and> DS_SetupStream failing_externals mock_model = Inr mock_stream"
    using wf_mock_model fs by simp
  have g: "fst (csf_mfcc failing_externals []) = 1 \<and> decoder_contract failing_externals \<and>
      snd (session_run failing_externals (session (model mock_stream))
          (empty_stream_input failing_externals mock_model) 1) = None"
    using fone fc frun by simp
  from empty_stream_decode[of failing_externals mock_model mock_stream, THEN conjunct2, THEN mp, OF h',
      THEN conjunct2, THEN conjunct2, THEN conjunct2, THEN mp, OF g]
  have d: "DS_FinishStream failing_externals mock_stream = Some (Inr [])" .
  from decoder_contract_mock a h b one c fc fs fone frun d show ?thesis by blast
qed

text \<open>C6 as stated fails: with a decoder that gives one label per frame (and the empty
  transcript for an empty logit sequence, as its contract says), a stream that is set up
  and finished with no sample fed returns a transcript of one label, not the empty
  transcript.\<close>

theorem empty_stream_decode_counterexample:
  "decoder_contract mock_externals \<and>
   DS_SetupStream mock_externals mock_model = Inr mock_stream \<and>
   decode mock_externals mock_model [] = Inr [] \<and>
   DS_FinishStream mock_externals mock_stream = Some (Inr ''a'')"
proof -
  have one: "fst (csf_mfcc mock_externals []) = 1" by (simp add: mock_externals_def)
  have run: "session_run mock_externals s i n = (s @ [n], Some (\<lambda>t. 0))" for s i n
    by (simp add: mock_externals_def)
  have "DS_FinishStream mock_externals mock_stream
     = Some (decode mock_externals mock_model (map (\<lambda>t. 0) [0..<29]))"
    unfolding empty_stream_finish(2)[OF wf_mock_model mock_setup one] run
    by (simp add: mock_model_def)
  moreover have "decode mock_externals mock_model [] = Inr []"
    by (rule decode_empty[OF decoder_contract_mock])
  ultimately show ?thesis using mock_setup mock_decode_one_frame decoder_contract_mock by simp
qed

subsection \<open>Context padding\<close>

lemma emit_timestep_mfcc_upd:
  "emit_timestep ext (st\<lparr>mfcc_buffer := b\<rparr>) t = (emit_timestep ext st t)\<lparr>mfcc_buffer := b\<rparr>"
  by (simp add: emit_timestep_def run_batch_def split: prod.splits option.splits)

lemma foldl_emit_frame [simp]:
  "mfcc_feats_per_timestep (model (foldl (emit_timestep ext) st ts)) = mfcc_feats_per_timestep (model st)"
  "n_steps (model (foldl (emit_timestep ext) st ts)) = n_steps (model st)"
  "wf_model (model (foldl (emit_timestep ext) st ts)) = wf_model (model st)"
  "mfcc_buffer (foldl (emit_timestep ext) st ts) = mfcc_buffer st"
  by (induction ts arbitrary: st) simp_all

lemma emit_timestep_batch_ok:
  assumes wf: "wf_model (model st)"
    and bbd: "unat (mfcc_feats_per_timestep (model st)) dvd length (batch_buffer st)"
    and bb: "length (batch_buffer st) + unat (mfcc_feats_per_timestep (model st))
               \<le> unat (n_steps (model st)) * unat (mfcc_feats_per_timestep (model st))"
    and t: "length t = unat (mfcc_feats_per_timestep (model st))"
  shows "unat (mfcc_feats_per_timestep (model st)) dvd length (batch_buffer (emit_timestep ext st t))"
    and "length (batch_buffer (emit_timestep ext st t)) + unat (mfcc_feats_per_timestep (model st))
               \<le> unat (n_steps (model st)) * unat (mfcc_feats_per_timestep (model st))"
proof -
  let ?F = "unat (mfcc_feats_per_timestep (model st))"
  let ?cap = "unat (n_steps (model st)) * ?F"
  have ns: "Suc 0 \<le> unat (n_steps (model st))" using wf_modelD(2)[OF wf] by simp
  have bb': "batch_buffer (emit_timestep ext st t) =
                 (if length (batch_buffer st) + ?F = ?cap then [] else batch_buffer st @ t)"
    using t by (simp add: emit_timestep_def)
  show "?F dvd length (batch_buffer (emit_timestep ext st t))"
    unfolding bb' using bbd t by simp
  show "length (batch_buffer (emit_timestep ext st t)) + ?F \<le> ?cap"
  proof (cases "length (batch_buffer st) + ?F = ?cap")
    case True
    then show ?thesis unfolding bb' using ns by simp
  next
    case False
    have "length (batch_buffer st) + ?F + ?F \<le> ?cap"
      by (rule dvd_less_step) (use bbd bb False in simp_all)
    then show ?thesis unfolding bb' using False t by simp
  qed
qed

lemma process_timesteps_ok:
  assumes "wf_model (model st)"
    and "unat (mfcc_feats_per_timestep (model st)) dvd length (batch_buffer st)"
    and "length (batch_buffer st) + unat (mfcc_feats_per_timestep (model st))
               \<le> unat (n_steps (model st)) * unat (mfcc_feats_per_timestep (model st))"
    and "\<forall>t \<in> set ts. length t = unat (mfcc_feats_per_timestep (model st))"
  shows "process_timesteps ext st ts = Some (Inr (foldl (emit_timestep ext) st ts))"
  using assms
proof (induction ts arbitrary: st)
  case Nil
  show ?case by simp
next
  case (Cons t ts)
  from Cons.prems(4) have t: "length t = unat (mfcc_feats_per_timestep (model st))" by simp
  have p: "processMfccWindow ext st t = Some (Inr (emit_timestep ext st t))"
    by (rule processMfccWindow_ok[OF Cons.prems(1,3) t])
  note e = emit_timestep_batch_ok[OF Cons.prems(1,2,3) t, of ext]
  have "process_timesteps ext (emit_timestep ext st t) ts
          = Some (Inr (foldl (emit_timestep ext) (emit_timestep ext st t) ts))"
    by (rule Cons.IH) (use Cons.prems e in simp_all)
  then show ?case by (simp add: p)
qed

lemma padded_window_Suc:
  "padded_window ext s (Suc k) = padded_window ext s k @ zero_vector ext"
  by (simp add: padded_window_def zero_vector_def replicate_add[symmetric])

lemma push_zero_windows_aux:
  assumes ok: "buffers_ok s"
    and L: "length (mfcc_buffer s) = 26 * a"
    and F: "unat (mfcc_feats_per_timestep (model s)) = 26 * f"
  shows "((\<lambda>s. push_vector ext s (zero_vector ext)) ^^ k) s =
     (foldl (emit_timestep ext) s
        (map (\<lambda>i. take (26 * f) (drop (26 * i) (padded_window ext s k))) [0..<a + k + 1 - f]))
     \<lparr>mfcc_buffer := drop (26 * (a + k + 1 - f)) (padded_window ext s k)\<rparr>"
proof (induction k)
  case 0
  from ok have "length (mfcc_buffer s) + 26 \<le> unat (mfcc_feats_per_timestep (model s))"
    by (simp add: buffers_ok_def MFCC_FEATURES_def)
  then have "a + 1 \<le> f" unfolding L F by simp
  then show ?case by (simp add: padded_window_def)
next
  case (Suc k)
  define c where "c = a + k + 1 - f"
  define W where "W = padded_window ext s k"
  define Z where "Z = zero_vector ext"
  define X where "X = foldl (emit_timestep ext) s (map (\<lambda>i. take (26 * f) (drop (26 * i) W)) [0..<c])"
  define sk where "sk = X\<lparr>mfcc_buffer := drop (26 * c) W\<rparr>"
  from ok have "length (mfcc_buffer s) + 26 \<le> unat (mfcc_feats_per_timestep (model s))"
    by (simp add: buffers_ok_def MFCC_FEATURES_def)
  then have af: "a + 1 \<le> f" unfolding L F by simp
  have lenW: "length W = 26 * (a + k)" by (simp add: W_def padded_window_def L MFCC_FEATURES_def)
  have lenZ: "length Z = 26" by (simp add: Z_def MFCC_FEATURES_def)
  have W': "padded_window ext s (Suc k) = W @ Z" unfolding W_def Z_def by (rule padded_window_Suc)
  have Fk: "unat (mfcc_feats_per_timestep (model sk)) = 26 * f" by (simp add: sk_def X_def F)
  have mbk: "mfcc_buffer sk = drop (26 * c) W" by (simp add: sk_def)
  have step: "((\<lambda>s. push_vector ext s (zero_vector ext)) ^^ Suc k) s = push_vector ext sk Z"
    using Suc.IH by (simp add: sk_def X_def W_def Z_def c_def)
  show ?case
  proof (cases "a + k + 1 < f")
    case True
    then have c0: "c = 0" and c1: "a + Suc k + 1 - f = 0" by (simp_all add: c_def)
    have ne: "length (mfcc_buffer sk) + length Z \<noteq> unat (mfcc_feats_per_timestep (model sk))"
      unfolding Fk mbk lenZ using True by (simp add: c0 lenW)
    have "push_vector ext sk Z = sk\<lparr>mfcc_buffer := mfcc_buffer sk @ Z\<rparr>"
      using ne unfolding push_vector_def by simp
    then have "push_vector ext sk Z = s\<lparr>mfcc_buffer := W @ Z\<rparr>"
      by (simp add: sk_def X_def c0)
    then show ?thesis
      unfolding step c1 W' by simp
  next
    case False
    then have fle: "f \<le> a + k + 1" by simp
    have c1: "a + Suc k + 1 - f = Suc c" using fle by (simp add: c_def)
    have cf: "c + f = a + k + 1" using fle by (simp add: c_def)
    have cle: "26 * c \<le> length W" unfolding lenW using af cf by simp
    have lenmb: "length (drop (26 * c) W) + 26 = 26 * f"
      unfolding length_drop lenW using cf af by simp
    have full: "length (mfcc_buffer sk) + length Z = unat (mfcc_feats_per_timestep (model sk))"
      unfolding Fk lenZ mbk by (rule lenmb)
    have dW': "drop (26 * c) (W @ Z) = drop (26 * c) W @ Z"
      using cle by simp
    have lent: "length (drop (26 * c) W @ Z) = 26 * f"
      using lenmb lenZ by (simp del: length_drop)
    have t: "take (26 * f) (drop (26 * c) (W @ Z)) = drop (26 * c) W @ Z"
      unfolding dW' using lent by simp
    have old: "take (26 * f) (drop (26 * i) (W @ Z)) = take (26 * f) (drop (26 * i) W)" if "i < c" for i
    proof -
      from that cf have i: "i + f \<le> a + k" by simp
      then have "26 * i \<le> length W" unfolding lenW by simp
      then have d: "drop (26 * i) (W @ Z) = drop (26 * i) W @ Z" by simp
      have "26 * f \<le> length (drop (26 * i) W)" unfolding length_drop lenW using i by simp
      then show ?thesis unfolding d by simp
    qed
    have m1: "map (\<lambda>i. take (26 * f) (drop (26 * i) (W @ Z))) [0..<c]
                 = map (\<lambda>i. take (26 * f) (drop (26 * i) W)) [0..<c]"
    proof (rule map_cong[OF refl])
      fix i assume "i \<in> set [0..<c]"
      then have "i < c" by simp
      then show "take (26 * f) (drop (26 * i) (W @ Z)) = take (26 * f) (drop (26 * i) W)"
        by (rule old)
    qed
    have up: "[0..<Suc c] = [0..<c] @ [c]" by simp
    have ts': "map (\<lambda>i. take (26 * f) (drop (26 * i) (W @ Z))) [0..<Suc c]
                 = map (\<lambda>i. take (26 * f) (drop (26 * i) W)) [0..<c] @ [drop (26 * c) W @ Z]"
      unfolding up map_append m1 by (simp only: list.map t)
    have e: "26 * Suc c = 26 + 26 * c" by simp
    have dd: "drop 26 (drop (26 * c) W @ Z) = drop (26 * Suc c) (W @ Z)"
      unfolding e drop_drop[symmetric] dW' ..
    have "push_vector ext sk Z
            = (emit_timestep ext (sk\<lparr>mfcc_buffer := mfcc_buffer sk @ Z\<rparr>) (mfcc_buffer sk @ Z))
                \<lparr>mfcc_buffer := drop MFCC_FEATURES (mfcc_buffer sk @ Z)\<rparr>"
      using full unfolding push_vector_def by simp
    also have "\<dots> = (emit_timestep ext X (drop (26 * c) W @ Z))
                        \<lparr>mfcc_buffer := drop 26 (drop (26 * c) W @ Z)\<rparr>"
      unfolding mbk by (simp add: sk_def emit_timestep_mfcc_upd MFCC_FEATURES_def del: drop_append)
    finally show ?thesis
      unfolding step c1 W' ts' dd by (simp add: X_def)
  qed
qed

lemma push_zero_windows:
  assumes ok: "buffers_ok s"
  shows "((\<lambda>s. push_vector ext s (zero_vector ext)) ^^ k) s =
     (foldl (emit_timestep ext) s (padding_timesteps ext s k))
       \<lparr>mfcc_buffer := drop (MFCC_FEATURES * length (padding_timesteps ext s k)) (padded_window ext s k)\<rparr>"
    and "\<forall>t \<in> set (padding_timesteps ext s k). length t = unat (mfcc_feats_per_timestep (model s))"
proof -
  from ok have wf: "wf_model (model s)" and d: "MFCC_FEATURES dvd length (mfcc_buffer s)"
    by (simp_all add: buffers_ok_def)
  from d obtain a where L: "length (mfcc_buffer s) = 26 * a"
    by (auto simp: dvd_def MFCC_FEATURES_def)
  define f where "f = 2 * unat (n_context (model s)) + 1"
  have F: "unat (mfcc_feats_per_timestep (model s)) = 26 * f"
    using wf_modelD(1)[OF wf] by (simp add: f_def MFCC_FEATURES_def)
  have lenW: "length (padded_window ext s k) = 26 * (a + k)"
    by (simp add: padded_window_def L MFCC_FEATURES_def)
  have "26 * (a + k) + 26 - 26 * f = 26 * (a + k + 1 - f)" by simp
  then have cnt: "(length (padded_window ext s k) + 26 - 26 * f) div 26 = a + k + 1 - f"
    unfolding lenW by simp
  have pt: "padding_timesteps ext s k
      = map (\<lambda>i. take (26 * f) (drop (26 * i) (padded_window ext s k))) [0..<a + k + 1 - f]"
    unfolding padding_timesteps_def F MFCC_FEATURES_def cnt ..
  show "((\<lambda>s. push_vector ext s (zero_vector ext)) ^^ k) s =
     (foldl (emit_timestep ext) s (padding_timesteps ext s k))
       \<lparr>mfcc_buffer := drop (MFCC_FEATURES * length (padding_timesteps ext s k)) (padded_window ext s k)\<rparr>"
    unfolding push_zero_windows_aux[OF ok L F] pt by (simp add: MFCC_FEATURES_def)
  show "\<forall>t \<in> set (padding_timesteps ext s k). length t = unat (mfcc_feats_per_timestep (model s))"
  proof
    fix t assume "t \<in> set (padding_timesteps ext s k)"
    then obtain i where i: "i < a + k + 1 - f"
      and t: "t = take (26 * f) (drop (26 * i) (padded_window ext s k))"
      unfolding pt by auto
    from i have "26 * i + 26 * f \<le> 26 * (a + k)" by simp
    then show "length t = unat (mfcc_feats_per_timestep (model s))"
      unfolding t F by (simp add: lenW)
  qed
qed

lemma finishStream_padding:
  assumes nc: "unat (n_context (model st)) < 2 ^ 31"
  shows "finishStream ext st =
       bind_r (processAudioWindow ext st (audio_buffer st)) (\<lambda>st1.
       bind_r (addZeroMfccWindows ext (unat (n_context (model st))) st1) (finish_tail ext))"
  unfolding finishStream_def finish_tail_def
  by (rule bind_r_cong) (use nc in \<open>simp add: processAudioWindow_n_context not_le\<close>)

lemma addZeroMfccWindows_timesteps:
  assumes ok: "buffers_ok s"
  shows "addZeroMfccWindows ext k s =
     bind_r (process_timesteps ext s (padding_timesteps ext s k)) (\<lambda>s2.
       Some (Inr (s2\<lparr>mfcc_buffer := drop (MFCC_FEATURES * length (padding_timesteps ext s k))
                                        (padded_window ext s k)\<rparr>)))"
proof -
  from ok have wf: "wf_model (model s)"
    and bbd: "unat (mfcc_feats_per_timestep (model s)) dvd length (batch_buffer s)"
    and bb: "length (batch_buffer s) + unat (mfcc_feats_per_timestep (model s))
               \<le> unat (n_steps (model s)) * unat (mfcc_feats_per_timestep (model s))"
    by (simp_all add: buffers_ok_def)
  have "process_timesteps ext s (padding_timesteps ext s k)
          = Some (Inr (foldl (emit_timestep ext) s (padding_timesteps ext s k)))"
    by (rule process_timesteps_ok[OF wf bbd bb push_zero_windows(2)[OF ok]])
  then show ?thesis
    by (simp add: addZeroMfccWindows_ok[OF ok] push_zero_windows(1)[OF ok])
qed

text \<open>C3: for every active stream of a well-formed model, whatever was fed before,
  \<open>finishStream\<close> first flushes the raw window through \<open>processAudioWindow\<close>, then pushes a
  vector of \<open>MFCC_FEATURES\<close> zeros into the feature window exactly \<open>n_context\<close> times, and
  only then runs the final partial batch and decodes. The effect of the pushes: the feature
  window is followed by \<open>n_context\<close> zero vectors, every timestep this completes (the last
  real frames with zeros as their future context) goes to \<open>processMfccWindow\<close> in order,
  and the feature window is left without the oldest vector of each of these timesteps.\<close>

theorem context_padding:
  "wf_model m \<and> active ext m st \<longrightarrow>
     finishStream ext st =
       bind_r (processAudioWindow ext st (audio_buffer st)) (\<lambda>st1.
       bind_r (((\<lambda>r. bind_r r (\<lambda>s. pushMfccBuffer ext s (replicate MFCC_FEATURES (f_zero ext))))
                  ^^ unat (n_context m)) (Some (Inr st1)))
         (finish_tail ext)) \<and>
     finishStream ext st =
       bind_r (processAudioWindow ext st (audio_buffer st)) (\<lambda>st1.
       bind_r (process_timesteps ext st1 (padding_timesteps ext st1 (unat (n_context m)))) (\<lambda>st2.
         finish_tail ext
           (st2\<lparr>mfcc_buffer :=
                  drop (MFCC_FEATURES * length (padding_timesteps ext st1 (unat (n_context m))))
                    (padded_window ext st1 (unat (n_context m)))\<rparr>)))"
proof (intro impI, elim conjE)
  assume wf: "wf_model m" and a: "active ext m st"
  from active_buffers_ok[OF wf a] have ok: "buffers_ok st" and cfg: "config (model st) = config m"
    by simp_all
  from cfg have ncm: "n_context (model st) = n_context m" by (simp add: config_def)
  have nc: "unat (n_context (model st)) < 2 ^ 31"
    unfolding ncm by (rule wf_unat_context(3)[OF wf])
  note f = finishStream_padding[OF nc, of ext, unfolded ncm]
  have A: "finishStream ext st =
       bind_r (processAudioWindow ext st (audio_buffer st)) (\<lambda>st1.
       bind_r (((\<lambda>r. bind_r r (\<lambda>s. pushMfccBuffer ext s (replicate MFCC_FEATURES (f_zero ext))))
                  ^^ unat (n_context m)) (Some (Inr st1)))
         (finish_tail ext))"
    unfolding f by (simp add: addZeroMfccWindows_funpow[symmetric])
  have B: "finishStream ext st =
       bind_r (processAudioWindow ext st (audio_buffer st)) (\<lambda>st1.
       bind_r (process_timesteps ext st1 (padding_timesteps ext st1 (unat (n_context m)))) (\<lambda>st2.
         finish_tail ext
           (st2\<lparr>mfcc_buffer :=
                  drop (MFCC_FEATURES * length (padding_timesteps ext st1 (unat (n_context m))))
                    (padded_window ext st1 (unat (n_context m)))\<rparr>)))"
    unfolding f
  proof (rule bind_r_cong)
    fix st1
    assume "processAudioWindow ext st (audio_buffer st) = Some (Inr st1)"
    then have "process_window ext st (audio_buffer st) = Inr st1"
      by (simp add: processAudioWindow_ok[OF ok])
    from process_window_ok(1)[OF ok this] have ok1: "buffers_ok st1" .
    show "bind_r (addZeroMfccWindows ext (unat (n_context m)) st1) (finish_tail ext) =
       bind_r (process_timesteps ext st1 (padding_timesteps ext st1 (unat (n_context m)))) (\<lambda>st2.
         finish_tail ext
           (st2\<lparr>mfcc_buffer :=
                  drop (MFCC_FEATURES * length (padding_timesteps ext st1 (unat (n_context m))))
                    (padded_window ext st1 (unat (n_context m)))\<rparr>))"
      unfolding addZeroMfccWindows_timesteps[OF ok1] by (simp add: bind_r_assoc)
  qed
  from A B show "finishStream ext st =
       bind_r (processAudioWindow ext st (audio_buffer st)) (\<lambda>st1.
       bind_r (((\<lambda>r. bind_r r (\<lambda>s. pushMfccBuffer ext s (replicate MFCC_FEATURES (f_zero ext))))
                  ^^ unat (n_context m)) (Some (Inr st1)))
         (finish_tail ext)) \<and>
     finishStream ext st =
       bind_r (processAudioWindow ext st (audio_buffer st)) (\<lambda>st1.
       bind_r (process_timesteps ext st1 (padding_timesteps ext st1 (unat (n_context m)))) (\<lambda>st2.
         finish_tail ext
           (st2\<lparr>mfcc_buffer :=
                  drop (MFCC_FEATURES * length (padding_timesteps ext st1 (unat (n_context m))))
                    (padded_window ext st1 (unat (n_context m)))\<rparr>)))"
    by (rule conjI)
qed

lemma preemphasis_zeros:
  "preemphasis mock_externals 0 (replicate n 0) = replicate n 0"
  by (induction n) (simp_all add: mock_externals_def PREEMPHASIS_COEFF_def)

lemma one_window_fed:
  "feedAudioContent mock_externals mock_stream (1 # replicate 399 0) = Some (Inr one_window_stream)"
proof -
  have r: "replicate 399 (0 :: 16 word) = 0 # replicate 398 0"
    by (simp add: replicate_Suc[symmetric] del: replicate_Suc)
  have ops: "f_sub mock_externals a b = a - b" "f_mul mock_externals a b = a * b"
    "PREEMPHASIS_COEFF mock_externals = 97 / 100" "f_of_short mock_externals 1 = 1"
    "f_of_short mock_externals 0 = 0" for a b
    by (simp_all add: mock_externals_def PREEMPHASIS_COEFF_def)
  have p: "preemphasis mock_externals 0 (1 # replicate 399 0) = 1 # (- (97 / 100)) # replicate 398 0"
    unfolding r by (simp add: ops preemphasis_zeros)
  have l: "last (1 # replicate 399 (0 :: 16 word)) = 0" by simp
  have f: "fill mock_externals mock_stream (1 # replicate 399 0)
      = mock_stream\<lparr>audio_buffer := 1 # (- (97 / 100)) # replicate 398 0, last_sample := 0\<rparr>"
  proof -
    have ls: "last_sample mock_stream = 0" "audio_buffer mock_stream = []"
      by (simp_all add: mock_stream_def)
    show ?thesis unfolding fill_def ls p l by (simp add: ops)
  qed
  have d: "drop 160 ((1 :: real) # (- (97 / 100)) # replicate 398 0) = replicate 240 0"
    by simp
  have "length (replicate 399 (0 :: 16 word)) = 399" by simp
  from first_window_mock[OF this, of 1] show ?thesis
    unfolding f by (simp add: d one_window_stream_def mock_stream_def)
qed

lemma one_window_active: "active mock_externals mock_model one_window_stream"
  by (rule mock_fed_active[OF one_window_fed])

theorem context_padding_witness:
  "wf_model mock_model \<and> active mock_externals mock_model one_window_stream \<and>
   padding_timesteps mock_externals (one_window_stream\<lparr>skip_next_mfcc := False\<rparr>) 1
     = [replicate 26 0 @ replicate 26 1 @ replicate 26 0] \<and>
   finishStream mock_externals one_window_stream =
     Some (Inr (one_window_stream
                  \<lparr>skip_next_mfcc := False,
                   mfcc_buffer := replicate 26 1 @ replicate 26 0,
                   batch_buffer := replicate 26 0 @ replicate 26 1 @ replicate 26 0,
                   accumulated_logits := replicate 29 0,
                   model := mock_model\<lparr>session := [1]\<rparr>\<rparr>, ''a''))"
proof -
  let ?s1 = "one_window_stream\<lparr>skip_next_mfcc := False\<rparr>"
  let ?T = "replicate 26 (0 :: real) @ replicate 26 1 @ replicate 26 0"
  have h: "wf_model mock_model \<and> active mock_externals mock_model one_window_stream"
    using wf_mock_model one_window_active by simp
  have nc: "unat (n_context mock_model) = 1" by (simp add: mock_model_def)
  have F: "unat (mfcc_feats_per_timestep (model ?s1)) = 78" "n_steps (model ?s1) = 2"
    "model ?s1 = mock_model" "batch_buffer ?s1 = []" "accumulated_logits ?s1 = []"
    "mfcc_buffer ?s1 = replicate 26 0 @ replicate 26 1"
    by (simp_all add: one_window_stream_def mock_stream_def mock_model_def)
  have M: "unat (mfcc_feats_per_timestep mock_model) = 78" "n_steps mock_model = 2"
    "unat (n_steps mock_model) = 2"
    by (simp_all add: mock_model_def)
  have pa: "processAudioWindow mock_externals one_window_stream (audio_buffer one_window_stream)
              = Some (Inr ?s1)"
    by (simp add: processAudioWindow_def one_window_stream_def)
  have pw: "padded_window mock_externals ?s1 1 = ?T"
    by (simp add: padded_window_def F MFCC_FEATURES_def mock_externals_def)
  have pt: "padding_timesteps mock_externals ?s1 1 = [?T]"
    unfolding padding_timesteps_def pw F(1) by (simp add: MFCC_FEATURES_def)
  have wf1: "wf_model (model ?s1)" unfolding F by (rule wf_mock_model)
  have pm: "processMfccWindow mock_externals ?s1 ?T = Some (Inr (emit_timestep mock_externals ?s1 ?T))"
    by (rule processMfccWindow_ok[OF wf1]) (simp_all add: F M)
  have em: "emit_timestep mock_externals ?s1 ?T = ?s1\<lparr>batch_buffer := ?T\<rparr>"
    by (simp add: emit_timestep_def F M)
  let ?s2 = "?s1\<lparr>batch_buffer := ?T, mfcc_buffer := replicate 26 1 @ replicate 26 0\<rparr>"
  have d: "drop (MFCC_FEATURES * length [?T]) ?T = replicate 26 1 @ replicate 26 0"
    by (simp add: MFCC_FEATURES_def)
  have ok2: "buffers_ok ?s2"
    using wf_mock_model
    by (simp add: buffers_ok_def one_window_stream_def mock_stream_def mock_model_def MFCC_FEATURES_def)
  have ne: "batch_buffer ?s2 \<noteq> []" by simp
  have fb: "flush_batch mock_externals ?s2 =
      ?s2\<lparr>accumulated_logits := replicate 29 0, model := mock_model\<lparr>session := [1]\<rparr>\<rparr>"
    by (simp add: flush_batch_def run_batch_def one_window_stream_def mock_stream_def mock_model_def
          mock_externals_def map_replicate_const)
  have al: "alphabet_size (mock_model\<lparr>session := [1]\<rparr>) + 1 < 2 ^ 31"
    "length (replicate 29 (0 :: real)) div (BATCH_SIZE * (alphabet_size (mock_model\<lparr>session := [1]\<rparr>) + 1)) < 2 ^ 31"
    by (simp_all add: mock_model_def BATCH_SIZE_def)
  have dec: "decode mock_externals (mock_model\<lparr>session := [1]\<rparr>) (replicate 29 0) = Inr ''a''"
    unfolding mock_decode[OF al] by (simp add: mock_model_def BATCH_SIZE_def mock_externals_def)
  have ft: "finish_tail mock_externals ?s2 =
      Some (Inr (?s2\<lparr>accumulated_logits := replicate 29 0, model := mock_model\<lparr>session := [1]\<rparr>\<rparr>, ''a''))"
    unfolding finish_tail_def
    using flush_batch_ok(1)[OF ok2 ne] flush_batch_ok(2)[OF ok2 ne, of mock_externals] ne
    by (simp add: fb dec)
  from context_padding[of mock_model mock_externals one_window_stream, THEN mp, OF h, THEN conjunct2]
  have "finishStream mock_externals one_window_stream =
     Some (Inr (?s2\<lparr>accumulated_logits := replicate 29 0, model := mock_model\<lparr>session := [1]\<rparr>\<rparr>, ''a''))"
    unfolding nc pa bind_r_simps pt pw process_timesteps.simps pm em d
    by (simp add: ft)
  then have "finishStream mock_externals one_window_stream =
     Some (Inr (one_window_stream
                  \<lparr>skip_next_mfcc := False,
                   mfcc_buffer := replicate 26 1 @ replicate 26 0,
                   batch_buffer := replicate 26 0 @ replicate 26 1 @ replicate 26 0,
                   accumulated_logits := replicate 29 0,
                   model := mock_model\<lparr>session := [1]\<rparr>\<rparr>, ''a''))"
    by (simp add: one_window_stream_def)
  with h pt show ?thesis by blast
qed

subsection \<open>The logits the inference calls account for\<close>

lemma logits_due_append [simp]:
  "logits_due nc (a @ b) = logits_due nc a + logits_due nc b"
  by (simp add: logits_due_def)

lemma logits_due_Nil [simp]: "logits_due nc [] = 0"
  by (simp add: logits_due_def)

lemma grows_refl [simp]: "grows calls nc st st"
  unfolding grows_def by (intro exI[of _ "[]"]) simp

lemma grows_trans:
  assumes "grows calls nc a b" "grows calls nc b c"
  shows "grows calls nc a c"
proof -
  from assms(1) obtain n1 y1 where 1: "calls (session (model b)) = calls (session (model a)) @ n1"
    "accumulated_logits b = accumulated_logits a @ y1" "length y1 = logits_due nc n1"
    unfolding grows_def by blast
  from assms(2) obtain n2 y2 where 2: "calls (session (model c)) = calls (session (model b)) @ n2"
    "accumulated_logits c = accumulated_logits b @ y2" "length y2 = logits_due nc n2"
    unfolding grows_def by blast
  have "calls (session (model c)) = calls (session (model a)) @ (n1 @ n2)"
    "accumulated_logits c = accumulated_logits a @ (y1 @ y2)"
    "length (y1 @ y2) = logits_due nc (n1 @ n2)"
    using 1 2 by simp_all
  then show ?thesis unfolding grows_def by blast
qed

lemma grows_same:
  "session (model b) = session (model b') \<Longrightarrow> accumulated_logits b = accumulated_logits b' \<Longrightarrow>
     grows calls nc a b = grows calls nc a b'"
  by (simp add: grows_def)

lemma grows_same_left:
  "session (model a) = session (model a') \<Longrightarrow> accumulated_logits a = accumulated_logits a' \<Longrightarrow>
     grows calls nc a b = grows calls nc a' b"
  by (simp add: grows_def)

lemma run_batch_grows:
  assumes "logging calls ext"
  shows "grows calls (alphabet_size (model st) + 1) st (run_batch ext st buf n)"
proof -
  let ?input = "take (unat n * unat (mfcc_feats_per_timestep (model st))) buf @
              replicate ((unat (n_steps (model st)) - unat n) * unat (mfcc_feats_per_timestep (model st)))
                (f_zero ext)"
  obtain s' r where sr: "session_run ext (session (model st)) ?input n = (s', r)"
    by (cases "session_run ext (session (model st)) ?input n")
  from assms have c: "calls s' = calls (session (model st)) @ [(n, r \<noteq> None)]"
    unfolding logging_def using sr by (metis fst_conv snd_conv)
  show ?thesis
  proof (cases r)
    case None
    show ?thesis
      unfolding grows_def
      by (intro exI[of _ "[(n, False)]"] exI[of _ "[]"])
         (use sr c None in \<open>simp add: run_batch_def logits_due_def\<close>)
  next
    case (Some lm)
    let ?ys = "map lm [0..<unat n * (alphabet_size (model st) + 1)]"
    have "calls (session (model (run_batch ext st buf n))) = calls (session (model st)) @ [(n, True)]"
      "accumulated_logits (run_batch ext st buf n) = accumulated_logits st @ ?ys"
      "length ?ys = logits_due (alphabet_size (model st) + 1) [(n, True)]"
      using sr c Some by (simp_all add: run_batch_def logits_due_def)
    then show ?thesis unfolding grows_def by blast
  qed
qed

lemma emit_timestep_grows:
  assumes "logging calls ext"
  shows "grows calls (alphabet_size (model st) + 1) st (emit_timestep ext st buf)"
proof (cases "length (batch_buffer st) + length buf
           = unat (n_steps (model st)) * unat (mfcc_feats_per_timestep (model st))")
  case True
  let ?s = "st\<lparr>batch_buffer := batch_buffer st @ buf\<rparr>"
  from run_batch_grows[OF assms, of ?s "batch_buffer st @ buf" "n_steps (model st)"]
  have "grows calls (alphabet_size (model st) + 1) st (run_batch ext ?s (batch_buffer st @ buf) (n_steps (model st)))"
    by (simp add: grows_same_left[of ?s st])
  then show ?thesis
    using True by (simp add: emit_timestep_def grows_def)
next
  case False
  then show ?thesis by (simp add: emit_timestep_def grows_def)
qed

lemma push_vector_grows:
  assumes "logging calls ext"
  shows "grows calls (alphabet_size (model st) + 1) st (push_vector ext st v)"
proof (cases "length (mfcc_buffer st) + length v = unat (mfcc_feats_per_timestep (model st))")
  case True
  let ?s = "st\<lparr>mfcc_buffer := mfcc_buffer st @ v\<rparr>"
  from emit_timestep_grows[OF assms, of ?s "mfcc_buffer st @ v"]
  have "grows calls (alphabet_size (model st) + 1) st (emit_timestep ext ?s (mfcc_buffer st @ v))"
    by (simp add: grows_same_left[of ?s st])
  then show ?thesis
    using True by (simp add: push_vector_def grows_def)
next
  case False
  then show ?thesis by (simp add: push_vector_def grows_def)
qed

lemma process_window_grows:
  assumes "logging calls ext" "process_window ext st buf = Inr s"
  shows "grows calls (alphabet_size (model st) + 1) st s" "alphabet_size (model s) = alphabet_size (model st)"
proof -
  from push_vector_grows[OF assms(1), of "st\<lparr>skip_next_mfcc := True\<rparr>" "features ext buf"]
  have "grows calls (alphabet_size (model st) + 1) st
          (push_vector ext (st\<lparr>skip_next_mfcc := True\<rparr>) (features ext buf))"
    by (simp add: grows_same_left[of "st\<lparr>skip_next_mfcc := True\<rparr>" st])
  with assms(2) show "grows calls (alphabet_size (model st) + 1) st s"
    by (auto simp: process_window_def grows_def split: if_splits)
  from assms(2) show "alphabet_size (model s) = alphabet_size (model st)"
    by (auto simp: process_window_def split: if_splits)
qed

lemma feed_total_grows:
  assumes "logging calls ext"
  shows "feed_total ext st xs = Inr s \<Longrightarrow> grows calls (alphabet_size (model st) + 1) st s"
proof (induction xs arbitrary: st)
  case Nil
  then show ?case by simp
next
  case (Cons x xs)
  let ?st' = "push_sample ext x st"
  have m': "session (model ?st') = session (model st)" "accumulated_logits ?st' = accumulated_logits st"
    "alphabet_size (model ?st') = alphabet_size (model st)"
    by (simp_all add: push_sample_def)
  show ?case
  proof (cases "length (audio_buffer ?st') = AUDIO_WIN_LEN_SAMPLES")
    case False
    with Cons.prems have "feed_total ext ?st' xs = Inr s" by simp
    from Cons.IH[OF this] show ?thesis
      by (simp add: m' grows_same_left[of ?st' st])
  next
    case True
    with Cons.prems obtain s1 where p: "process_window ext ?st' (audio_buffer ?st') = Inr s1"
      and f: "feed_total ext (s1\<lparr>audio_buffer := drop AUDIO_WIN_STEP_SAMPLES (audio_buffer s1)\<rparr>) xs = Inr s"
      by (auto split: sum.splits)
    let ?s1 = "s1\<lparr>audio_buffer := drop AUDIO_WIN_STEP_SAMPLES (audio_buffer s1)\<rparr>"
    note g1 = process_window_grows[OF assms p]
    have a: "grows calls (alphabet_size (model st) + 1) st s1"
      using g1(1) by (simp add: m' grows_same_left[of ?st' st])
    from Cons.IH[OF f] have "grows calls (alphabet_size (model st) + 1) ?s1 s"
      using g1(2) by (simp add: m')
    then have b: "grows calls (alphabet_size (model st) + 1) s1 s"
      by (simp add: grows_same_left[of ?s1 s1])
    from grows_trans[OF a b] show ?thesis .
  qed
qed

lemma push_zero_funpow_grows:
  assumes "logging calls ext"
  shows "grows calls (alphabet_size (model st) + 1) st (((\<lambda>s. push_vector ext s (zero_vector ext)) ^^ k) st)"
proof (induction k)
  case 0
  show ?case by simp
next
  case (Suc k)
  let ?s = "((\<lambda>s. push_vector ext s (zero_vector ext)) ^^ k) st"
  have "config (model ?s) = config (model st)" by simp
  then have al: "alphabet_size (model ?s) = alphabet_size (model st)" by (simp add: config_def)
  from push_vector_grows[OF assms, of ?s "zero_vector ext"]
  have "grows calls (alphabet_size (model st) + 1) ?s (push_vector ext ?s (zero_vector ext))"
    by (simp add: al)
  from grows_trans[OF Suc this] show ?case by simp
qed

lemma flush_batch_grows:
  assumes "logging calls ext"
  shows "grows calls (alphabet_size (model st) + 1) st (flush_batch ext st)"
  using run_batch_grows[OF assms, where st = st and buf = "batch_buffer st"] by (simp add: flush_batch_def)

lemma finish_state_grows:
  assumes "logging calls ext" "finish_state ext st = Inr s3"
  shows "grows calls (alphabet_size (model st) + 1) st s3"
proof -
  from assms(2) obtain s1 where s1: "process_window ext st (audio_buffer st) = Inr s1"
    and s3: "s3 = flush_batch ext (((\<lambda>s. push_vector ext s (zero_vector ext)) ^^ unat (n_context (model s1))) s1)"
    by (auto simp: finish_state_def split: sum.splits)
  let ?s2 = "((\<lambda>s. push_vector ext s (zero_vector ext)) ^^ unat (n_context (model s1))) s1"
  note g1 = process_window_grows[OF assms(1) s1]
  have "config (model ?s2) = config (model s1)" by simp
  then have al2: "alphabet_size (model ?s2) = alphabet_size (model st)"
    using g1(2) by (simp add: config_def)
  have g2: "grows calls (alphabet_size (model st) + 1) s1 ?s2"
    using push_zero_funpow_grows[OF assms(1), where st = s1 and k = "unat (n_context (model s1))"]
    by (simp add: g1(2))
  have g3: "grows calls (alphabet_size (model st) + 1) ?s2 (flush_batch ext ?s2)"
    using flush_batch_grows[OF assms(1), where st = ?s2] by (simp add: al2)
  from grows_trans[OF grows_trans[OF g1(1) g2] g3] show ?thesis by (simp add: s3)
qed

lemma flaky_facts:
  "DS_SetupStream flaky_externals mock_model = Inr mock_stream"
  "extractor_ok flaky_externals"
  "\<forall>inputs c w. ctc_beam_search_decoder flaky_externals inputs c w \<noteq> []"
  "recording (\<lambda>s. s) flaky_externals"
  "f_zero flaky_externals = 0"
  "session_run flaky_externals s input n = (s @ [n], if s = [] then None else Some (\<lambda>t. 1))"
  by (simp_all add: flaky_externals_def mock_externals_def DS_SetupStream_def mock_model_def
        mock_stream_def MFCC_FEATURES_def extractor_ok_def recording_def)

lemma flaky_logging: "logging flaky_calls flaky_externals"
  unfolding logging_def flaky_facts(6)
  by (simp add: flaky_calls_def split: list.splits)

subsection \<open>The batch boundary scenario\<close>

lemma logits_due_all_ok:
  "logits_due nc (map (\<lambda>n. (n, True)) xs) = nc * sum_list (map unat xs)"
  by (induction xs) (simp_all add: logits_due_def algebra_simps)

lemma mock_logging: "logging (map (\<lambda>n. (n, True))) mock_externals"
  by (simp add: logging_def mock_externals_def)

lemma all_ok_grows_count:
  assumes "grows (map (\<lambda>n. (n, True))) nc st st'"
    and "length (accumulated_logits st) = nc * sum_list (map unat (session (model st)))"
  shows "length (accumulated_logits st') = nc * sum_list (map unat (session (model st')))"
proof -
  let ?f = "\<lambda>n :: 32 word. (n, True)"
  from assms(1) obtain new ys where c: "map ?f (session (model st')) = map ?f (session (model st)) @ new"
    and lo: "accumulated_logits st' = accumulated_logits st @ ys"
    and len: "length ys = logits_due nc new"
    unfolding grows_def by blast
  from c obtain us vs where s': "session (model st') = us @ vs"
    and us: "map ?f (session (model st)) = map ?f us" and vs: "new = map ?f vs"
    by (auto simp: map_eq_append_conv)
  have "inj ?f" by (simp add: inj_on_def)
  with us have "us = session (model st)" by (simp add: inj_map_eq_map)
  then show ?thesis
    using lo len assms(2) by (simp add: s' vs logits_due_all_ok algebra_simps)
qed

lemma mock_active_count:
  assumes "active mock_externals mock_model st"
  shows "length (accumulated_logits st) = 29 * sum_list (map unat (session (model st)))"
  using assms
proof (induction rule: active.induct)
  case (fresh st)
  with mock_setup have "st = mock_stream" by simp
  then show ?case by (simp add: mock_stream_def mock_model_def)
next
  case (fed st xs st')
  from active_buffers_ok[OF wf_mock_model fed(1)]
  have ok: "buffers_ok st" and ab: "length (audio_buffer st) < AUDIO_WIN_LEN_SAMPLES"
    and cfg: "config (model st) = config mock_model" by simp_all
  from cfg have al: "alphabet_size (model st) + 1 = 29" by (simp add: config_def mock_model_def)
  from fed(2) have "feed_total mock_externals st xs = Inr st'"
    by (simp add: DS_FeedAudioContent_def feed_total_correct[OF ok ab])
  from feed_total_grows[OF mock_logging this, unfolded al]
  have "grows (map (\<lambda>n. (n, True))) 29 st st'" .
  from all_ok_grows_count[OF this fed.IH] show ?case .
qed

lemma mock_finish_session:
  assumes act: "active mock_externals mock_model st1"
    and fs: "finish_state mock_externals st1 = Inr s3"
    and sm: "sum_list (map unat (session (model s3))) < 2 ^ 31"
    and e: "finishStream mock_externals st1 =
           (case d of Inl e \<Rightarrow> Some (Inl e) | Inr str \<Rightarrow> Some (Inr (st2, str)))"
  shows "session_of_finished (finishStream mock_externals st1) = Some (Inr (session (model st2)))"
proof -
  from active_buffers_ok[OF wf_mock_model act] have ok: "buffers_ok st1"
    and cfg: "config (model st1) = config mock_model" by simp_all
  from cfg have al: "alphabet_size (model st1) + 1 = 29" by (simp add: config_def mock_model_def)
  from finish_state_grows[OF mock_logging fs, unfolded al]
  have "grows (map (\<lambda>n. (n, True))) 29 st1 s3" .
  from all_ok_grows_count[OF this mock_active_count[OF act]]
  have len: "length (accumulated_logits s3) = 29 * sum_list (map unat (session (model s3)))" .
  have b: "length (accumulated_logits s3) div (BATCH_SIZE * (alphabet_size (model st1) + 1)) < 2 ^ 31"
    unfolding len al using sm by (simp add: BATCH_SIZE_def)
  from finishStream_returns[OF ok extractor_ok_mock(1)] fs b
  obtain str where f: "finishStream mock_externals st1 = Some (Inr (s3, str))"
    by auto
  from f[unfolded e] have "s3 = st2" by (rule finish_case_eq)
  with f show ?thesis by (simp add: session_of_finished_def)
qed

text \<open>C4, as the code has it. With \<open>n_steps = 2\<close>, \<open>mfcc_feats_per_timestep = 78\<close> and
  \<open>n_context = 1\<close> (and an alphabet small enough for the logits of a batch to be counted
  in an \<^verbatim>\<open>int\<close>), a session that records its runs, and an extractor that returns one
  frame per window: feeding 1680 to 1839 samples to a fresh stream (nine raw windows, five
  feature vectors, four timesteps) makes exactly two inference calls during the feed, each
  on a full batch of 2 timesteps, and leaves the batch window empty; \<open>finishStream\<close> then
  forms the fifth timestep from the zero padding and makes exactly one more call, on a
  partial batch of 1 timestep. Feeding 1520 to 1679 samples also gives five timesteps, but
  only one full batch is run during the feed: \<open>finishStream\<close> flushes the raw window into a
  fourth timestep, runs the second full batch, and then the partial batch of 1 timestep.\<close>

theorem batch_boundary:
  "n_steps m = 2 \<and> mfcc_feats_per_timestep m = 78 \<and> n_context m = 1 \<and>
   2 * (alphabet_size m + 1) < 2 ^ 31 \<and>
   recording runs ext \<and> extractor_ok ext \<and> DS_SetupStream ext m = Inr st0 \<longrightarrow>
     (1680 \<le> length xs \<and> length xs < 1840 \<longrightarrow>
        (\<exists>st1 st2.
           feedAudioContent ext st0 xs = Some (Inr st1) \<and>
           runs (session (model st1)) = runs (session (model st0)) @ [2, 2] \<and>
           batch_buffer st1 = [] \<and>
           finishStream ext st1 =
             (case decode ext (model st2) (accumulated_logits st2) of
                Inl e \<Rightarrow> Some (Inl e)
              | Inr str \<Rightarrow> Some (Inr (st2, str))) \<and>
           runs (session (model st2)) = runs (session (model st0)) @ [2, 2, 1])) \<and>
     (1520 \<le> length xs \<and> length xs < 1680 \<longrightarrow>
        (\<exists>st1 st2.
           feedAudioContent ext st0 xs = Some (Inr st1) \<and>
           runs (session (model st1)) = runs (session (model st0)) @ [2] \<and>
           length (batch_buffer st1) = 78 \<and>
           finishStream ext st1 =
             (case decode ext (model st2) (accumulated_logits st2) of
                Inl e \<Rightarrow> Some (Inl e)
              | Inr str \<Rightarrow> Some (Inr (st2, str))) \<and>
           runs (session (model st2)) = runs (session (model st0)) @ [2, 2, 1]))"
proof (intro impI conjI; elim conjE)
  assume m: "n_steps m = 2" "mfcc_feats_per_timestep m = 78" "n_context m = 1"
    and al: "2 * (alphabet_size m + 1) < 2 ^ 31"
    and rec: "recording runs ext" and ex: "extractor_ok ext"
    and st0: "DS_SetupStream ext m = Inr st0"
  {
    assume "1680 \<le> length xs" "length xs < 1840"
    then have "nwin (length xs) = 9" using nwin_range[of 8 "length xs"] by simp
    from batch_scenario[OF m al rec ex st0 this]
    show "\<exists>st1 st2.
           feedAudioContent ext st0 xs = Some (Inr st1) \<and>
           runs (session (model st1)) = runs (session (model st0)) @ [2, 2] \<and>
           batch_buffer st1 = [] \<and>
           finishStream ext st1 =
             (case decode ext (model st2) (accumulated_logits st2) of
                Inl e \<Rightarrow> Some (Inl e)
              | Inr str \<Rightarrow> Some (Inr (st2, str))) \<and>
           runs (session (model st2)) = runs (session (model st0)) @ [2, 2, 1]"
      unfolding abs_window_9 by (auto simp: abs_finish_9 shape_def)
  }
  {
    assume "1520 \<le> length xs" "length xs < 1680"
    then have "nwin (length xs) = 8" using nwin_range[of 7 "length xs"] by simp
    from batch_scenario[OF m al rec ex st0 this]
    show "\<exists>st1 st2.
           feedAudioContent ext st0 xs = Some (Inr st1) \<and>
           runs (session (model st1)) = runs (session (model st0)) @ [2] \<and>
           length (batch_buffer st1) = 78 \<and>
           finishStream ext st1 =
             (case decode ext (model st2) (accumulated_logits st2) of
                Inl e \<Rightarrow> Some (Inl e)
              | Inr str \<Rightarrow> Some (Inr (st2, str))) \<and>
           runs (session (model st2)) = runs (session (model st0)) @ [2, 2, 1]"
      unfolding abs_window_8 by (auto simp: abs_finish_8 shape_def)
  }
qed

theorem batch_boundary_witness:
  "n_steps mock_model = 2 \<and> mfcc_feats_per_timestep mock_model = 78 \<and> n_context mock_model = 1 \<and>
   2 * (alphabet_size mock_model + 1) < 2 ^ 31 \<and>
   recording (\<lambda>s. s) mock_externals \<and> extractor_ok mock_externals \<and>
   DS_SetupStream mock_externals mock_model = Inr mock_stream \<and>
   1680 \<le> length (replicate 1680 (0 :: 16 word)) \<and> length (replicate 1680 (0 :: 16 word)) < 1840 \<and>
   session_of (feedAudioContent mock_externals mock_stream (replicate 1680 0)) = Some (Inr [2, 2]) \<and>
   session_of_finished (bind_r (feedAudioContent mock_externals mock_stream (replicate 1680 0))
                          (finishStream mock_externals)) = Some (Inr [2, 2, 1])"
proof -
  have m: "n_steps mock_model = 2" "mfcc_feats_per_timestep mock_model = 78" "n_context mock_model = 1"
    and al: "2 * (alphabet_size mock_model + 1) < 2 ^ 31"
    by (simp_all add: mock_model_def)
  have h: "n_steps mock_model = 2 \<and> mfcc_feats_per_timestep mock_model = 78 \<and> n_context mock_model = 1 \<and>
     2 * (alphabet_size mock_model + 1) < 2 ^ 31 \<and>
     recording (\<lambda>s. s) mock_externals \<and> extractor_ok mock_externals \<and>
     DS_SetupStream mock_externals mock_model = Inr mock_stream"
    using recording_mock extractor_ok_mock(1) mock_setup m al by simp
  have l: "1680 \<le> length (replicate 1680 (0 :: 16 word)) \<and> length (replicate 1680 (0 :: 16 word)) < 1840"
    by simp
  have s0: "session (model mock_stream) = []" by (simp add: mock_stream_def mock_model_def)
  from batch_boundary[of mock_model "\<lambda>s. s" mock_externals mock_stream "replicate 1680 0",
      THEN mp, OF h, THEN conjunct1, THEN mp, OF l]
  obtain st1 st2 where f:
    "feedAudioContent mock_externals mock_stream (replicate 1680 0) = Some (Inr st1)"
    "session (model st1) = [2, 2]"
    and e: "finishStream mock_externals st1 =
             (case decode mock_externals (model st2) (accumulated_logits st2) of
                Inl e \<Rightarrow> Some (Inl e)
              | Inr str \<Rightarrow> Some (Inr (st2, str)))"
    and r: "session (model st2) = [2, 2, 1]"
    by (auto simp: s0)
  have w: "nwin (length (replicate 1680 (0 :: 16 word))) = 9"
    using nwin_range[of 8 1680] by simp
  from batch_scenario[OF m al recording_mock extractor_ok_mock(1) mock_setup w]
  obtain s3 where fs: "finish_state mock_externals st1 = Inr s3"
    and r3: "session (model s3) = [2, 2, 1]"
    unfolding abs_window_9 by (auto simp: abs_finish_9[of "[]", simplified] shape_def s0 f(1))
  have sm: "sum_list (map unat (session (model s3))) < 2 ^ 31" by (simp add: r3)
  from f mock_finish_session[OF mock_fed_active[OF f(1)] fs sm e] r
  have "session_of (feedAudioContent mock_externals mock_stream (replicate 1680 0)) = Some (Inr [2, 2])"
    and "session_of_finished (bind_r (feedAudioContent mock_externals mock_stream (replicate 1680 0))
                          (finishStream mock_externals)) = Some (Inr [2, 2, 1])"
    by (simp_all add: session_of_def)
  with h l show ?thesis by blast
qed

text \<open>C4 as stated fails. 1520 samples are enough for five timesteps (the runs of the
  session take 2 + 2 + 1 frames), yet only one full batch is run during the feed; the
  second is run by \<open>finishStream\<close>. And when the feed itself forms five timesteps (2000
  samples), \<open>finishStream\<close> forms a sixth and makes a full-batch call of 2 timesteps and no
  partial-batch call.\<close>

theorem batch_boundary_counterexample:
  "session_of (feedAudioContent mock_externals mock_stream (replicate 1520 0)) = Some (Inr [2]) \<and>
   session_of_finished (bind_r (feedAudioContent mock_externals mock_stream (replicate 1520 0))
                          (finishStream mock_externals)) = Some (Inr [2, 2, 1]) \<and>
   session_of (feedAudioContent mock_externals mock_stream (replicate 2000 0)) = Some (Inr [2, 2]) \<and>
   length (batch_buffer_of (feedAudioContent mock_externals mock_stream (replicate 2000 0))) = 78 \<and>
   session_of_finished (bind_r (feedAudioContent mock_externals mock_stream (replicate 2000 0))
                          (finishStream mock_externals)) = Some (Inr [2, 2, 2])"
proof -
  have m: "n_steps mock_model = 2" "mfcc_feats_per_timestep mock_model = 78" "n_context mock_model = 1"
    by (simp_all add: mock_model_def)
  have w: "nwin (length (replicate 1520 (0 :: 16 word))) = 8"
    using nwin_range[of 7 1520] by simp
  have w': "nwin (length (replicate 2000 (0 :: 16 word))) = 11"
    using nwin_range[of 10 2000] by simp
  have s0: "session (model mock_stream) = []" by (simp add: mock_stream_def mock_model_def)
  have al: "2 * (alphabet_size mock_model + 1) < 2 ^ 31" by (simp add: mock_model_def)
  from batch_scenario[OF m al recording_mock extractor_ok_mock(1) mock_setup w]
  obtain st1 st2 where f:
    "feedAudioContent mock_externals mock_stream (replicate 1520 0) = Some (Inr st1)"
    "session (model st1) = [2]"
    and fs: "finish_state mock_externals st1 = Inr st2"
    and e: "finishStream mock_externals st1 =
             (case decode mock_externals (model st2) (accumulated_logits st2) of
                Inl e \<Rightarrow> Some (Inl e)
              | Inr str \<Rightarrow> Some (Inr (st2, str)))"
    and r: "session (model st2) = [2, 2, 1]"
    unfolding abs_window_8 by (auto simp: abs_finish_8[of "[]", simplified] shape_def s0)
  have sm: "sum_list (map unat (session (model st2))) < 2 ^ 31" by (simp add: r)
  from f mock_finish_session[OF mock_fed_active[OF f(1)] fs sm e] r
  have A: "session_of (feedAudioContent mock_externals mock_stream (replicate 1520 0)) = Some (Inr [2])"
    "session_of_finished (bind_r (feedAudioContent mock_externals mock_stream (replicate 1520 0))
                          (finishStream mock_externals)) = Some (Inr [2, 2, 1])"
    by (simp_all add: session_of_def)
  from batch_scenario[OF m al recording_mock extractor_ok_mock(1) mock_setup w']
  obtain st1 st2 where f:
    "feedAudioContent mock_externals mock_stream (replicate 2000 0) = Some (Inr st1)"
    "session (model st1) = [2, 2]" "length (batch_buffer st1) = 78"
    and fs: "finish_state mock_externals st1 = Inr st2"
    and e: "finishStream mock_externals st1 =
             (case decode mock_externals (model st2) (accumulated_logits st2) of
                Inl e \<Rightarrow> Some (Inl e)
              | Inr str \<Rightarrow> Some (Inr (st2, str)))"
    and r: "session (model st2) = [2, 2, 2]"
    unfolding abs_window_11 by (auto simp: abs_finish_11[of "[]", simplified] shape_def s0)
  have sm: "sum_list (map unat (session (model st2))) < 2 ^ 31" by (simp add: r)
  from f mock_finish_session[OF mock_fed_active[OF f(1)] fs sm e] r
  have B: "session_of (feedAudioContent mock_externals mock_stream (replicate 2000 0)) = Some (Inr [2, 2])"
    "length (batch_buffer_of (feedAudioContent mock_externals mock_stream (replicate 2000 0))) = 78"
    "session_of_finished (bind_r (feedAudioContent mock_externals mock_stream (replicate 2000 0))
                          (finishStream mock_externals)) = Some (Inr [2, 2, 2])"
    by (simp_all add: session_of_def batch_buffer_of_def)
  from A B show ?thesis by simp
qed

subsection \<open>Inference failures\<close>

text \<open>C5: every inference call of a stream goes through \<open>processBatch\<close>. On a well-formed
  model, a call on \<open>n \<le> n_steps\<close> frames always returns; when the session reports an error
  \<open>accumulated_logits\<close> is left as it was (the batch adds nothing, only the session state
  moves on), and when it succeeds the \<open>n * num_classes\<close> logits of the call are appended,
  whatever happened to earlier batches. For an active stream, with an extractor that
  returns one frame per window and a decoder that returns a result, and for every
  behaviour of the session: \<open>feedAudioContent\<close> returns a state; \<open>finishStream\<close> returns the
  state it leaves and the decoding of its logits, a transcript as long as the frame count
  fits the \<^verbatim>\<open>int\<close> that \<open>decode\<close> keeps it in; and if the session records its runs, the logits
  were extended by exactly \<open>num_classes\<close> values for every frame of the runs that succeeded
  and by nothing for the runs that failed.\<close>

theorem fail_open:
  "(wf_model (model s) \<and> unat n \<le> unat (n_steps (model s)) \<and>
    unat n * unat (mfcc_feats_per_timestep (model s)) \<le> length buf \<longrightarrow>
      processBatch ext s buf n =
        (case session_run ext (session (model s))
                (take (unat n * unat (mfcc_feats_per_timestep (model s))) buf @
                 replicate ((unat (n_steps (model s)) - unat n) * unat (mfcc_feats_per_timestep (model s)))
                   (f_zero ext)) n of
           (s', None) \<Rightarrow> Inr (s\<lparr>model := (model s)\<lparr>session := s'\<rparr>\<rparr>)
         | (s', Some logits_mapped) \<Rightarrow>
             Inr (s\<lparr>accumulated_logits :=
                      accumulated_logits s @
                      map logits_mapped [0..<unat n * (alphabet_size (model s) + 1)],
                    model := (model s)\<lparr>session := s'\<rparr>\<rparr>))) \<and>
   (wf_model m \<and> active ext m st \<and> extractor_ok ext \<and>
    (\<forall>inputs c w. ctc_beam_search_decoder ext inputs c w \<noteq> []) \<longrightarrow>
      (\<exists>st'. feedAudioContent ext st xs = Some (Inr st') \<and>
         (logging calls ext \<longrightarrow>
            (\<exists>new ys. calls (session (model st')) = calls (session (model st)) @ new \<and>
                      accumulated_logits st' = accumulated_logits st @ ys \<and>
                      length ys = logits_due (alphabet_size m + 1) new))) \<and>
      (\<exists>st'. finishStream ext st =
                (case decode ext m (accumulated_logits st') of
                   Inl e \<Rightarrow> Some (Inl e)
                 | Inr str \<Rightarrow> Some (Inr (st', str))) \<and>
         (length (accumulated_logits st') div (alphabet_size m + 1) < 2 ^ 31 \<longrightarrow>
            (\<exists>str. finishStream ext st = Some (Inr (st', str)))) \<and>
         (logging calls ext \<longrightarrow>
            (\<exists>new ys. calls (session (model st')) = calls (session (model st)) @ new \<and>
                      accumulated_logits st' = accumulated_logits st @ ys \<and>
                      length ys = logits_due (alphabet_size m + 1) new))))"
proof (rule conjI; rule impI)
  assume "wf_model (model s) \<and> unat n \<le> unat (n_steps (model s)) \<and>
    unat n * unat (mfcc_feats_per_timestep (model s)) \<le> length buf"
  then have a: "wf_model (model s)" "unat n \<le> unat (n_steps (model s))"
    "unat n * unat (mfcc_feats_per_timestep (model s)) \<le> length buf" by simp_all
  show "processBatch ext s buf n =
        (case session_run ext (session (model s))
                (take (unat n * unat (mfcc_feats_per_timestep (model s))) buf @
                 replicate ((unat (n_steps (model s)) - unat n) * unat (mfcc_feats_per_timestep (model s)))
                   (f_zero ext)) n of
           (s', None) \<Rightarrow> Inr (s\<lparr>model := (model s)\<lparr>session := s'\<rparr>\<rparr>)
         | (s', Some logits_mapped) \<Rightarrow>
             Inr (s\<lparr>accumulated_logits :=
                      accumulated_logits s @
                      map logits_mapped [0..<unat n * (alphabet_size (model s) + 1)],
                    model := (model s)\<lparr>session := s'\<rparr>\<rparr>))"
    unfolding processBatch_ok[OF a] run_batch_def
    by (simp split: prod.splits option.splits)
next
  assume h: "wf_model m \<and> active ext m st \<and> extractor_ok ext \<and>
    (\<forall>inputs c w. ctc_beam_search_decoder ext inputs c w \<noteq> [])"
  then have wf: "wf_model m" and act: "active ext m st" and ex: "extractor_ok ext"
    and dec: "\<forall>inputs c w. ctc_beam_search_decoder ext inputs c w \<noteq> []" by simp_all
  from active_buffers_ok[OF wf act]
  have ok: "buffers_ok st" and ab: "length (audio_buffer st) < AUDIO_WIN_LEN_SAMPLES"
    and cfg: "config (model st) = config m" by simp_all
  from cfg have al: "alphabet_size (model st) = alphabet_size m" by (simp add: config_def)
  have feed: "\<exists>st'. feedAudioContent ext st xs = Some (Inr st') \<and>
         (logging calls ext \<longrightarrow>
            (\<exists>new ys. calls (session (model st')) = calls (session (model st)) @ new \<and>
                      accumulated_logits st' = accumulated_logits st @ ys \<and>
                      length ys = logits_due (alphabet_size m + 1) new))"
  proof -
    from feed_total_Inr[OF ex] obtain st' where f: "feed_total ext st xs = Inr st'" by blast
    have "feedAudioContent ext st xs = Some (Inr st')"
      by (simp add: feed_total_correct[OF ok ab] f)
    moreover have "logging calls ext \<longrightarrow>
            (\<exists>new ys. calls (session (model st')) = calls (session (model st)) @ new \<and>
                      accumulated_logits st' = accumulated_logits st @ ys \<and>
                      length ys = logits_due (alphabet_size m + 1) new)"
      using feed_total_grows[OF _ f, of calls] unfolding grows_def al by blast
    ultimately show ?thesis by blast
  qed
  have fin: "\<exists>st'. finishStream ext st =
                (case decode ext m (accumulated_logits st') of
                   Inl e \<Rightarrow> Some (Inl e)
                 | Inr str \<Rightarrow> Some (Inr (st', str))) \<and>
         (length (accumulated_logits st') div (alphabet_size m + 1) < 2 ^ 31 \<longrightarrow>
            (\<exists>str. finishStream ext st = Some (Inr (st', str)))) \<and>
         (logging calls ext \<longrightarrow>
            (\<exists>new ys. calls (session (model st')) = calls (session (model st)) @ new \<and>
                      accumulated_logits st' = accumulated_logits st @ ys \<and>
                      length ys = logits_due (alphabet_size m + 1) new))"
  proof -
    from finishStream_returns[OF ok ex dec]
    obtain st' where fs: "finish_state ext st = Inr st'"
      and f: "finishStream ext st =
             (case decode ext (model st) (accumulated_logits st') of
                Inl e \<Rightarrow> Some (Inl e)
              | Inr str \<Rightarrow> Some (Inr (st', str)))"
      and d: "length (accumulated_logits st') div (BATCH_SIZE * (alphabet_size (model st) + 1)) < 2 ^ 31 \<longrightarrow>
              (\<exists>str. decode ext (model st) (accumulated_logits st') = Inr str)"
      by blast
    have f': "finishStream ext st =
                (case decode ext m (accumulated_logits st') of
                   Inl e \<Rightarrow> Some (Inl e)
                 | Inr str \<Rightarrow> Some (Inr (st', str)))"
      using f by (simp add: decode_config[OF cfg])
    have "length (accumulated_logits st') div (alphabet_size m + 1) < 2 ^ 31 \<longrightarrow>
            (\<exists>str. finishStream ext st = Some (Inr (st', str)))"
      using d unfolding f by (auto simp: al BATCH_SIZE_def)
    moreover have "logging calls ext \<longrightarrow>
            (\<exists>new ys. calls (session (model st')) = calls (session (model st)) @ new \<and>
                      accumulated_logits st' = accumulated_logits st @ ys \<and>
                      length ys = logits_due (alphabet_size m + 1) new)"
      using finish_state_grows[OF _ fs, of calls] unfolding grows_def al by blast
    ultimately show ?thesis using f' by blast
  qed
  from feed fin show "(\<exists>st'. feedAudioContent ext st xs = Some (Inr st') \<and>
         (logging calls ext \<longrightarrow>
            (\<exists>new ys. calls (session (model st')) = calls (session (model st)) @ new \<and>
                      accumulated_logits st' = accumulated_logits st @ ys \<and>
                      length ys = logits_due (alphabet_size m + 1) new))) \<and>
      (\<exists>st'. finishStream ext st =
                (case decode ext m (accumulated_logits st') of
                   Inl e \<Rightarrow> Some (Inl e)
                 | Inr str \<Rightarrow> Some (Inr (st', str))) \<and>
         (length (accumulated_logits st') div (alphabet_size m + 1) < 2 ^ 31 \<longrightarrow>
            (\<exists>str. finishStream ext st = Some (Inr (st', str)))) \<and>
         (logging calls ext \<longrightarrow>
            (\<exists>new ys. calls (session (model st')) = calls (session (model st)) @ new \<and>
                      accumulated_logits st' = accumulated_logits st @ ys \<and>
                      length ys = logits_due (alphabet_size m + 1) new)))"
    by (rule conjI)
qed

lemma flaky_decode:
  assumes "alphabet_size m' + 1 < 2 ^ 31"
    and "length lo div (alphabet_size m' + 1) < 2 ^ 31"
  shows "decode flaky_externals m' lo = Inr (replicate (length lo div (alphabet_size m' + 1)) CHR ''a'')"
  using assms
  by (simp add: decode_def flaky_externals_def mock_externals_def Let_def BATCH_SIZE_def
        map_replicate_const)

theorem fail_open_witness:
  "wf_model mock_model \<and> active flaky_externals mock_model mock_stream \<and>
   extractor_ok flaky_externals \<and>
   (\<forall>inputs c w. ctc_beam_search_decoder flaky_externals inputs c w \<noteq> []) \<and>
   logging flaky_calls flaky_externals \<and>
   processBatch flaky_externals mock_stream (replicate 156 0) 2
     = Inr (mock_stream\<lparr>model := mock_model\<lparr>session := [2]\<rparr>\<rparr>) \<and>
   processBatch flaky_externals (mock_stream\<lparr>model := mock_model\<lparr>session := [2]\<rparr>\<rparr>) (replicate 156 0) 2
     = Inr (mock_stream\<lparr>accumulated_logits := replicate 58 1,
                        model := mock_model\<lparr>session := [2, 2]\<rparr>\<rparr>) \<and>
   (\<exists>st1 st2.
      feedAudioContent flaky_externals mock_stream (replicate 2000 0) = Some (Inr st1) \<and>
      session (model st1) = [2, 2] \<and> length (accumulated_logits st1) = 58 \<and>
      active flaky_externals mock_model st1 \<and>
      finishStream flaky_externals st1 = Some (Inr (st2, ''aaaa'')) \<and>
      session (model st2) = [2, 2, 2] \<and> length (accumulated_logits st2) = 116)"
proof -
  let ?s1 = "mock_stream\<lparr>model := mock_model\<lparr>session := [2]\<rparr>\<rparr>"
  have act: "active flaky_externals mock_model mock_stream"
    by (rule active.fresh) (rule flaky_facts(1))
  have h: "wf_model mock_model \<and> active flaky_externals mock_model mock_stream \<and>
     extractor_ok flaky_externals \<and>
     (\<forall>inputs c w. ctc_beam_search_decoder flaky_externals inputs c w \<noteq> [])"
    using wf_mock_model act flaky_facts(2,3) by simp
  have M: "model mock_stream = mock_model" "accumulated_logits mock_stream = []"
    "unat (n_steps mock_model) = 2" "unat (mfcc_feats_per_timestep mock_model) = 78"
    "alphabet_size mock_model = 28" "session mock_model = []"
    by (simp_all add: mock_stream_def mock_model_def)
  have b1: "wf_model (model mock_stream) \<and> unat (2 :: 32 word) \<le> unat (n_steps (model mock_stream)) \<and>
      unat (2 :: 32 word) * unat (mfcc_feats_per_timestep (model mock_stream)) \<le> length (replicate 156 (0 :: real))"
    using wf_mock_model by (simp add: M)
  have b2: "wf_model (model ?s1) \<and> unat (2 :: 32 word) \<le> unat (n_steps (model ?s1)) \<and>
      unat (2 :: 32 word) * unat (mfcc_feats_per_timestep (model ?s1)) \<le> length (replicate 156 (0 :: real))"
    using wf_mock_model by (simp add: M)
  have p1: "processBatch flaky_externals mock_stream (replicate 156 0) 2 = Inr ?s1"
    using fail_open[of mock_stream 2 "replicate 156 0" flaky_externals mock_model mock_stream "[]" flaky_calls,
        THEN conjunct1, THEN mp, OF b1]
    by (simp add: M flaky_facts(6))
  have p2: "processBatch flaky_externals ?s1 (replicate 156 0) 2
     = Inr (mock_stream\<lparr>accumulated_logits := replicate 58 1, model := mock_model\<lparr>session := [2, 2]\<rparr>\<rparr>)"
    using fail_open[of ?s1 2 "replicate 156 0" flaky_externals mock_model mock_stream "[]" flaky_calls,
        THEN conjunct1, THEN mp, OF b2]
    by (simp add: M flaky_facts(6) map_replicate_const)
  note T = fail_open[of mock_stream 2 "replicate 156 0" flaky_externals mock_model mock_stream
      "replicate 2000 0" flaky_calls, THEN conjunct2, THEN mp, OF h]
  from T[THEN conjunct1] flaky_logging
  obtain st1 new ys where f: "feedAudioContent flaky_externals mock_stream (replicate 2000 0) = Some (Inr st1)"
    and c: "flaky_calls (session (model st1)) = flaky_calls (session (model mock_stream)) @ new"
    and lo: "accumulated_logits st1 = accumulated_logits mock_stream @ ys"
    and len: "length ys = logits_due (alphabet_size mock_model + 1) new"
    by blast
  have m: "n_steps mock_model = 2" "mfcc_feats_per_timestep mock_model = 78" "n_context mock_model = 1"
    and al: "2 * (alphabet_size mock_model + 1) < 2 ^ 31"
    by (simp_all add: mock_model_def)
  have w: "nwin (length (replicate 2000 (0 :: 16 word))) = 11"
    using nwin_range[of 10 2000] by simp
  from batch_scenario[OF m al flaky_facts(4,2,1) w]
  obtain st2 where s1: "session (model st1) = [2, 2]"
    and fs: "finish_state flaky_externals st1 = Inr st2"
    and s2: "session (model st2) = [2, 2, 2]"
    unfolding abs_window_11 by (auto simp: abs_finish_11[of "[]", simplified] shape_def M f)
  from c have "new = [(2, False), (2, True)]"
    by (simp add: s1 M flaky_calls_def)
  with len lo have l1: "length (accumulated_logits st1) = 58"
    by (simp add: M logits_due_def)
  have act1: "active flaky_externals mock_model st1"
    by (rule active.fed[OF act, where xs = "replicate 2000 0"]) (simp add: DS_FeedAudioContent_def f)
  have h1: "wf_model mock_model \<and> active flaky_externals mock_model st1 \<and>
     extractor_ok flaky_externals \<and>
     (\<forall>inputs c w. ctc_beam_search_decoder flaky_externals inputs c w \<noteq> [])"
    using wf_mock_model act1 flaky_facts(2,3) by simp
  from active_buffers_ok[OF wf_mock_model act1] have ok1: "buffers_ok st1"
    and cfg1: "config (model st1) = config mock_model" by simp_all
  from cfg1 have al1: "alphabet_size (model st1) + 1 = 29" by (simp add: config_def mock_model_def)
  from finish_state_grows[OF flaky_logging fs, unfolded al1 grows_def]
  obtain new2 ys2 where "flaky_calls (session (model st2)) = flaky_calls (session (model st1)) @ new2"
    and lo2: "accumulated_logits st2 = accumulated_logits st1 @ ys2"
    and len2: "length ys2 = logits_due 29 new2"
    by blast
  then have "new2 = [(2, True)]" by (simp add: s1 s2 flaky_calls_def)
  with len2 lo2 l1 have l2: "length (accumulated_logits st2) = 116"
    by (simp add: logits_due_def)
  from fail_open[of mock_stream 2 "replicate 156 0" flaky_externals mock_model st1
      "[]" flaky_calls, THEN conjunct2, THEN mp, OF h1, THEN conjunct2]
  obtain st' where ce: "finishStream flaky_externals st1 =
                (case decode flaky_externals mock_model (accumulated_logits st') of
                   Inl e \<Rightarrow> Some (Inl e)
                 | Inr str \<Rightarrow> Some (Inr (st', str)))"
    and rt: "length (accumulated_logits st') div (alphabet_size mock_model + 1) < 2 ^ 31 \<longrightarrow>
            (\<exists>str. finishStream flaky_externals st1 = Some (Inr (st', str)))"
    by blast
  from finishStream_returns[OF ok1 flaky_facts(2,3)] fs
  obtain str where r2: "finishStream flaky_externals st1 = Some (Inr (st2, str))"
    by (auto simp: l2 al1[simplified] BATCH_SIZE_def split: sum.splits)
  from r2[unfolded ce] have st': "st2 = st'" by (rule finish_case_eq)
  have d: "decode flaky_externals mock_model (accumulated_logits st2) = Inr ''aaaa''"
    using flaky_decode[of mock_model "accumulated_logits st2"]
    by (simp add: l2 M) (simp add: eval_nat_numeral)
  from ce have fin: "finishStream flaky_externals st1 = Some (Inr (st2, ''aaaa''))"
    unfolding st'[symmetric] d by simp
  from f s1 l1 act1 fin s2 l2
  have "\<exists>st1 st2.
      feedAudioContent flaky_externals mock_stream (replicate 2000 0) = Some (Inr st1) \<and>
      session (model st1) = [2, 2] \<and> length (accumulated_logits st1) = 58 \<and>
      active flaky_externals mock_model st1 \<and>
      finishStream flaky_externals st1 = Some (Inr (st2, ''aaaa'')) \<and>
      session (model st2) = [2, 2, 2] \<and> length (accumulated_logits st2) = 116"
    by blast
  with h flaky_logging p1 p2 show ?thesis by blast
qed

end
